theory Spec2Isabelle
  imports Main "HOL-Library.Char_ord" "HOL-Library.List_Lexorder" "HOL-Library.Sublist"
begin

unbundle bit_operations_syntax

section \<open>File-system utilities of electron-builder-util (fs.ts)\<close>

text \<open>
  The theory embeds \<^verbatim>\<open>packages/electron-builder-util/src/fs.ts\<close>: the permission
  fix and the link-or-copy decision of \<^verbatim>\<open>copyOrLinkFile\<close>, \<^verbatim>\<open>copyFile\<close>, the class
  \<^verbatim>\<open>FileCopier\<close>, the directory walk \<^verbatim>\<open>walk\<close> and \<^verbatim>\<open>copyDir\<close>.

  Promises are modelled by their outcome: a rejected promise and a thrown exception are
  \<open>Inl e\<close>, a fulfilled one is \<open>Inr v\<close>. Calls to \<^verbatim>\<open>debug\<close> only write a log line and are
  left out.
\<close>

subsection \<open>Data\<close>

type_synonym path = string

text \<open>What \<^verbatim>\<open>writeFile\<close> receives: a string or a Buffer.\<close>

type_synonym content = string

text \<open>A Node.js error; the code looks at nothing but its \<^verbatim>\<open>code\<close> property.\<close>

datatype error = Error (code: string)

text \<open>
  \<^verbatim>\<open>fs.Stats\<close>: the kind of the entry, which answers \<^verbatim>\<open>isDirectory()\<close>, \<^verbatim>\<open>isFile()\<close> and
  \<^verbatim>\<open>isSymbolicLink()\<close>, and the number \<^verbatim>\<open>mode\<close>.
\<close>

datatype file_kind = RegularFile | Directory | SymbolicLink | Other

record stats =
  kind :: file_kind
  mode :: int

definition isDirectory :: "stats \<Rightarrow> bool" where
  "isDirectory s = (kind s = Directory)"

definition isFile :: "stats \<Rightarrow> bool" where
  "isFile s = (kind s = RegularFile)"


subsection \<open>Permission bits\<close>

text \<open>
  JavaScript's \<^verbatim>\<open>|\<close> and \<^verbatim>\<open>&\<close> convert both operands to 32-bit two's complement
  integers (ToInt32) and give a number in that range.
\<close>

definition to_int32 :: "int \<Rightarrow> int" where
  "to_int32 x = signed_take_bit 31 x"

definition js_or :: "int \<Rightarrow> int \<Rightarrow> int" where
  "js_or a b = to_int32 a OR to_int32 b"

definition js_and :: "int \<Rightarrow> int \<Rightarrow> int" where
  "js_and a b = to_int32 a AND to_int32 b"

text \<open>
  The package \<^verbatim>\<open>stat-mode\<close> wraps a Stats object; reading \<^verbatim>\<open>mode.owner.execute\<close> is
  \<^verbatim>\<open>Boolean(stat.mode & S_IXUSR)\<close>, and assigning \<^verbatim>\<open>true\<close> to \<^verbatim>\<open>mode.group.read\<close>
  is \<^verbatim>\<open>stat.mode |= S_IRGRP\<close>, likewise for the other accessors. The constants are those
  of POSIX: octal 100, 40, 10, 4 and 1.
\<close>

definition S_IXUSR :: int where "S_IXUSR = 64"
definition S_IRGRP :: int where "S_IRGRP = 32"
definition S_IXGRP :: int where "S_IXGRP = 8"
definition S_IROTH :: int where "S_IROTH = 4"
definition S_IXOTH :: int where "S_IXOTH = 1"

definition owner_execute :: "int \<Rightarrow> bool" where
  "owner_execute m = (js_and m S_IXUSR \<noteq> 0)"

text \<open>
  Lines 127 to 134 of \<^verbatim>\<open>copyOrLinkFile\<close>: the value of \<^verbatim>\<open>stats.mode\<close> after the four
  assignments, from its value before.
\<close>

definition fixed_mode :: "int \<Rightarrow> int" where
  "fixed_mode m =
     (let m1 = (if owner_execute m then js_or (js_or m S_IXGRP) S_IXOTH else m)
      in js_or (js_or m1 S_IRGRP) S_IROTH)"

subsection \<open>The default hard-link preference\<close>

text \<open>
  Line 112. The arguments are \<^verbatim>\<open>process.platform\<close>, the environment variable
  \<^verbatim>\<open>USE_HARD_LINKS\<close> (\<open>None\<close> when it is not set) and the value of \<^verbatim>\<open>is-ci\<close>.
\<close>

definition isUseHardLink_default :: "string \<Rightarrow> string option \<Rightarrow> bool \<Rightarrow> bool" where
  "isUseHardLink_default platform USE_HARD_LINKS isCi =
     (platform \<noteq> ''win32'' \<and> USE_HARD_LINKS \<noteq> Some ''false''
        \<and> (isCi \<or> USE_HARD_LINKS = Some ''true''))"

subsection \<open>Writing to the file system\<close>

text \<open>
  The calls that change the file system. The world is the list of the calls made so far,
  and a \<open>filesystem\<close> says how each call ends, given what was done before it: any
  deterministic file system is such a function.
\<close>

datatype fs_op =
    Link path path
  | Fcopy path path "int option"
  | WriteFile path content
  | EnsureDir path
  | Symlink string path

type_synonym world = "fs_op list"

type_synonym filesystem = "world \<Rightarrow> fs_op \<Rightarrow> error + unit"

definition perform :: "filesystem \<Rightarrow> fs_op \<Rightarrow> world \<Rightarrow> (error + unit) \<times> world" where
  "perform fs op w = (fs w op, w @ [op])"

subsection \<open>copyOrLinkFile and copyFile\<close>

text \<open>
  \<^verbatim>\<open>copyOrLinkFile\<close> assigns to \<^verbatim>\<open>stats.mode\<close> of the object it is given, so the model
  returns the Stats as the caller finds it afterwards, besides the outcome of the
  promise and the world.
\<close>

definition copyOrLinkFile ::
  "filesystem \<Rightarrow> path \<Rightarrow> path \<Rightarrow> stats option \<Rightarrow> bool \<Rightarrow> world
     \<Rightarrow> (error + unit) \<times> stats option \<times> world" where
  "copyOrLinkFile fs src dest stats0 isUseHardLink w =
     (let (stats1, isUseHardLink1) =
        (case stats0 of
           None \<Rightarrow> (None, isUseHardLink)
         | Some st \<Rightarrow>
             (let originalModeNumber = mode st;
                  st1 = st\<lparr>mode := fixed_mode (mode st)\<rparr>
              in (Some st1,
                  if originalModeNumber \<noteq> mode st1 then False else isUseHardLink)))
      in if isUseHardLink1
         then (let (r, w1) = perform fs (Link src dest) w in (r, stats1, w1))
         else (let (r, w1) = perform fs (Fcopy src dest (map_option mode stats1)) w
               in (r, stats1, w1)))"

text \<open>
  \<^verbatim>\<open>copyFile(src, dest, isEnsureDir = true)\<close>; the parameter is \<open>None\<close> when the caller
  leaves it out. \<^verbatim>\<open>path.dirname\<close> belongs to Node.js and is a parameter here.
\<close>

definition copyFile ::
  "filesystem \<Rightarrow> (path \<Rightarrow> path) \<Rightarrow> path \<Rightarrow> path \<Rightarrow> bool option \<Rightarrow> world
     \<Rightarrow> (error + unit) \<times> world" where
  "copyFile fs dirname src dest isEnsureDir0 w =
     (let isEnsureDir = (case isEnsureDir0 of None \<Rightarrow> True | Some b \<Rightarrow> b);
          (r0, w0) = (if isEnsureDir then perform fs (EnsureDir (dirname dest)) w
                      else (Inr (), w))
      in case r0 of
           Inl e \<Rightarrow> (Inl e, w0)
         | Inr _ \<Rightarrow> (let (r, st, w1) = copyOrLinkFile fs src dest None False w0
                     in (r, w1)))"

subsection \<open>FileCopier\<close>

text \<open>
  The constructor compares its first argument with the constant
  \<^verbatim>\<open>DO_NOT_USE_HARD_LINKS\<close> by identity, so the constant is a constructor of its own
  beside the functions a caller may write.
\<close>

datatype hard_link_function = DO_NOT_USE_HARD_LINKS | Predicate "path \<Rightarrow> bool"

fun call_hard_link_function :: "hard_link_function \<Rightarrow> path \<Rightarrow> bool" where
  "call_hard_link_function DO_NOT_USE_HARD_LINKS file = False"
| "call_hard_link_function (Predicate f) file = f file"

text \<open>
  What a \<^verbatim>\<open>FileTransformer\<close> returns: \<^verbatim>\<open>null\<close>, a string or Buffer, or a promise of
  one of the two, which may also be rejected. A transformer that throws ends in the same
  \<^verbatim>\<open>catch\<close> as one whose promise is rejected.
\<close>

datatype transformed = Null | Data content | Promise "error + content option"

type_synonym FileTransformer = "path \<Rightarrow> transformed"

record FileCopier =
  isUseHardLink :: bool
  isUseHardLinkFunction :: "hard_link_function option"
  transformer :: "FileTransformer option"


text \<open>The fourth argument of the call in line 183.\<close>

definition link_wanted :: "FileCopier \<Rightarrow> path \<Rightarrow> bool" where
  "link_wanted this dest =
     (case isUseHardLinkFunction this of
        None \<Rightarrow> isUseHardLink this
      | Some f \<Rightarrow>
          if \<not> isUseHardLink this then isUseHardLink this
          else call_hard_link_function f dest)"

text \<open>
  The value of \<^verbatim>\<open>data\<close> when line 177 tests it: a promise has been awaited, anything
  else is as the transformer returned it.
\<close>

fun awaited :: "transformed \<Rightarrow> error + content option" where
  "awaited Null = Inr None"
| "awaited (Data c) = Inr (Some c)"
| "awaited (Promise r) = r"

text \<open>The body of the \<^verbatim>\<open>try\<close> block of \<^verbatim>\<open>copy\<close>, lines 170 to 183.\<close>

definition copy_try ::
  "filesystem \<Rightarrow> FileCopier \<Rightarrow> path \<Rightarrow> path \<Rightarrow> stats option \<Rightarrow> world
     \<Rightarrow> (error + unit) \<times> stats option \<times> world" where
  "copy_try fs this src dest stat w =
     (let data =
        (case (transformer this, stat) of
           (Some t, Some st) \<Rightarrow>
             if isFile st
             then awaited (t src)
             else Inr None
         | _ \<Rightarrow> Inr None)
      in case data of
           Inl e \<Rightarrow> (Inl e, stat, w)
         | Inr (Some c) \<Rightarrow>
             (let (r, w1) = perform fs (WriteFile dest c) w in (r, stat, w1))
         | Inr None \<Rightarrow> copyOrLinkFile fs src dest stat (link_wanted this dest) w)"

text \<open>
  \<^verbatim>\<open>copy\<close> with its \<^verbatim>\<open>catch\<close> block. The result holds the outcome, the copier with
  its flag as the call leaves it, the Stats object and the world.
\<close>

definition copy ::
  "filesystem \<Rightarrow> FileCopier \<Rightarrow> path \<Rightarrow> path \<Rightarrow> stats option \<Rightarrow> world
     \<Rightarrow> (error + unit) \<times> FileCopier \<times> stats option \<times> world" where
  "copy fs this src dest stat w =
     (case copy_try fs this src dest stat w of
        (Inr u, stat1, w1) \<Rightarrow> (Inr u, this, stat1, w1)
      | (Inl e, stat1, w1) \<Rightarrow>
          if code e = ''EXDEV''
          then (let this1 = (if isUseHardLink this then this\<lparr>isUseHardLink := False\<rparr>
                             else this);
                    (r, stat2, w2) = copyOrLinkFile fs src dest stat1 False w1
                in (r, this1, stat2, w2))
          else (Inl e, this, stat1, w1))"

text \<open>Several calls of \<^verbatim>\<open>copy\<close> on one instance, one after the other.\<close>

fun copy_calls ::
  "filesystem \<Rightarrow> FileCopier \<Rightarrow> (path \<times> path \<times> stats option) list \<Rightarrow> world
     \<Rightarrow> FileCopier \<times> world" where
  "copy_calls fs this [] w = (this, w)"
| "copy_calls fs this ((src, dest, stat) # calls) w =
     (case copy fs this src dest stat w of
        (r, this1, stat1, w1) \<Rightarrow> copy_calls fs this1 calls w1)"

text \<open>The hard links among the calls made.\<close>

fun is_Link :: "fs_op \<Rightarrow> bool" where
  "is_Link (Link src dest) = True"
| "is_Link _ = False"

subsection \<open>walk\<close>

text \<open>
  A path is a string; \<^verbatim>\<open>dirPath + path.sep + name\<close> is concatenation, with the
  separator of POSIX.
\<close>

definition sep :: string where "sep = ''/''"

type_synonym Filter = "path \<Rightarrow> stats \<Rightarrow> bool"

text \<open>
  What the consumer returns: something that is not a promise (\<^verbatim>\<open>null\<close>, or an object
  without \<^verbatim>\<open>then\<close>), or a promise, rejected or fulfilled with either a Stats object
  or something else. A consumer that throws rejects the promise of the mapper as a
  rejected promise of its own does. The consumer is given the set of ignored paths by
  reference and may have a state of its own: it returns both as it leaves them.
\<close>

datatype consumed = NotThenable | Thenable "error + stats option"

type_synonym 'c consumer =
  "path \<Rightarrow> stats \<Rightarrow> path \<Rightarrow> path set \<Rightarrow> string list \<Rightarrow> 'c \<Rightarrow> consumed \<times> path set \<times> 'c"

text \<open>
  The directory tree that is read, as \<^verbatim>\<open>readdir\<close>, \<^verbatim>\<open>lstat\<close> and \<^verbatim>\<open>readlink\<close>
  answer. Nothing changes it while it is walked.
\<close>

record disk =
  readdir :: "path \<Rightarrow> error + string list"
  lstat :: "path \<Rightarrow> error + stats"
  readlink :: "path \<Rightarrow> error + string"

text \<open>
  The variables of \<^verbatim>\<open>walk\<close> (the queue apart, an argument of the loop), the state of
  the consumer, and a record that the source does not keep: \<open>trace\<close> lists the paths
  for which the mapper returns at line 68, and the paths the consumer is called with.
\<close>

datatype event = Skipped path | Consumed path

record 'c walk_state =
  result :: "path list"
  addDirToResult :: bool
  extraIgnoredFiles :: "path set"
  dirs :: "string list"
  consumer_state :: 'c
  trace :: "event list"

text \<open>Lines 73 to 79, and 85 to 91 with the Stats that decides.\<close>

definition classify ::
  "string \<Rightarrow> path \<Rightarrow> stats \<Rightarrow> 'c walk_state \<Rightarrow> (error + path option) \<times> 'c walk_state" where
  "classify name filePath stat s =
     (if isDirectory stat then (Inr None, s\<lparr>dirs := dirs s @ [name]\<rparr>)
      else (Inr (Some filePath), s))"

text \<open>The mapper of lines 63 to 94, for one name.\<close>

definition visit_child ::
  "disk \<Rightarrow> Filter option \<Rightarrow> 'c consumer option \<Rightarrow> path \<Rightarrow> string list \<Rightarrow> string
     \<Rightarrow> 'c walk_state \<Rightarrow> (error + path option) \<times> 'c walk_state" where
  "visit_child src filter' consumer dirPath childNames name s =
     (let filePath = dirPath @ sep @ name
      in case lstat src filePath of
           Inl e \<Rightarrow> (Inl e, s)
         | Inr stat \<Rightarrow>
             if filePath \<in> extraIgnoredFiles s
                  \<or> (case filter' of None \<Rightarrow> False | Some f \<Rightarrow> \<not> f filePath stat)
             then (Inr None, s\<lparr>trace := trace s @ [Skipped filePath]\<rparr>)
             else (case consumer of
                     None \<Rightarrow> classify name filePath stat s
                   | Some c \<Rightarrow>
                       (case c filePath stat dirPath (extraIgnoredFiles s) childNames
                               (consumer_state s) of
                          (consumerResult, ignored1, c1) \<Rightarrow>
                            (let s1 = s\<lparr>extraIgnoredFiles := ignored1, consumer_state := c1,
                                        trace := trace s @ [Consumed filePath]\<rparr>
                             in case consumerResult of
                                  NotThenable \<Rightarrow> classify name filePath stat s1
                                | Thenable (Inl e) \<Rightarrow> (Inl e, s1)
                                | Thenable (Inr it) \<Rightarrow>
                                    classify name filePath
                                      (case it of Some st \<Rightarrow> st | None \<Rightarrow> stat) s1))))"

text \<open>
  \<^verbatim>\<open>BluebirdPromise.map\<close> over the sorted names. Up to eight mappers are in flight at
  a time and the order in which their callbacks run is not fixed by the code; the model
  runs them one after the other in the order of the names, and stops at the first that
  fails. The values are kept in the order of the names in any case.
\<close>

fun visit_children ::
  "disk \<Rightarrow> Filter option \<Rightarrow> 'c consumer option \<Rightarrow> path \<Rightarrow> string list \<Rightarrow> string list
     \<Rightarrow> 'c walk_state \<Rightarrow> (error + path option list) \<times> 'c walk_state" where
  "visit_children src filter' consumer dirPath childNames [] s = (Inr [], s)"
| "visit_children src filter' consumer dirPath childNames (name # names) s =
     (case visit_child src filter' consumer dirPath childNames name s of
        (Inl e, s1) \<Rightarrow> (Inl e, s1)
      | (Inr child, s1) \<Rightarrow>
          (case visit_children src filter' consumer dirPath childNames names s1 of
             (Inl e, s2) \<Rightarrow> (Inl e, s2)
           | (Inr children, s2) \<Rightarrow> (Inr (child # children), s2)))"

text \<open>Lines 51 to 56.\<close>

definition enter :: "path \<Rightarrow> 'c walk_state \<Rightarrow> 'c walk_state" where
  "enter dirPath s =
     (if addDirToResult s then s\<lparr>result := result s @ [dirPath]\<rparr>
      else s\<lparr>addDirToResult := True\<rparr>)"

text \<open>
  One round of the loop for the directory taken from the queue: the state after it, and
  the paths it pushes onto the queue. \<^verbatim>\<open>sort()\<close> compares strings by their code units,
  here by their characters.
\<close>

definition visit_dir ::
  "disk \<Rightarrow> Filter option \<Rightarrow> 'c consumer option \<Rightarrow> path \<Rightarrow> 'c walk_state
     \<Rightarrow> (error + path list) \<times> 'c walk_state" where
  "visit_dir src filter' consumer dirPath s0 =
     (let s = enter dirPath s0
      in case readdir src dirPath of
           Inl e \<Rightarrow> (Inl e, s)
         | Inr names \<Rightarrow>
             (let childNames = sort names
              in case visit_children src filter' consumer dirPath childNames childNames
                        (s\<lparr>dirs := []\<rparr>) of
                   (Inl e, s1) \<Rightarrow> (Inl e, s1)
                 | (Inr sortedFilePaths, s1) \<Rightarrow>
                     (Inr (map (\<lambda>child. dirPath @ sep @ child) (sort (dirs s1))),
                      s1\<lparr>result := result s1 @ List.map_filter id sortedFilePaths\<rparr>)))"

text \<open>
  The loop. The queue is used as a stack: \<^verbatim>\<open>pop\<close> takes its last element. Nothing in
  the code bounds the number of rounds, so the loop is a partial function: \<open>None\<close> stands
  for a walk that does not end.
\<close>

partial_function (option) walk_loop ::
  "disk \<Rightarrow> Filter option \<Rightarrow> 'c consumer option \<Rightarrow> path list \<Rightarrow> 'c walk_state
     \<Rightarrow> ((error + path list) \<times> 'c walk_state) option" where
  "walk_loop src filter' consumer queue s =
     (if queue = [] then Some (Inr (result s), s)
      else (case visit_dir src filter' consumer (last queue) s of
              (Inl e, s1) \<Rightarrow> Some (Inl e, s1)
            | (Inr pushed, s1) \<Rightarrow> walk_loop src filter' consumer (butlast queue @ pushed) s1))"

declare walk_loop.simps [code]

text \<open>
  \<^verbatim>\<open>walk\<close>: the outcome of the promise, with the final state (the state of the consumer
  and the trace are read from it).
\<close>

definition walk ::
  "disk \<Rightarrow> path \<Rightarrow> Filter option \<Rightarrow> 'c consumer option \<Rightarrow> 'c
     \<Rightarrow> ((error + path list) \<times> 'c walk_state) option" where
  "walk src initialDirPath filter' consumer c =
     walk_loop src filter' consumer [initialDirPath]
       \<lparr>result = [], addDirToResult = False,
        extraIgnoredFiles = {}, dirs = [], consumer_state = c, trace = []\<rparr>"

subsection \<open>Directory trees\<close>

text \<open>
  A finite tree of entries. \<open>Dir st cs\<close> is a path where \<^verbatim>\<open>lstat\<close> gives \<open>st\<close> and
  \<^verbatim>\<open>readdir\<close> gives the names of \<open>cs\<close>; \<open>File st e\<close> is a path where \<^verbatim>\<open>lstat\<close>
  gives \<open>st\<close> and \<^verbatim>\<open>readdir\<close> fails with \<open>e\<close>. \<open>holds src p t\<close> says that the disk holds
  the tree \<open>t\<close> at the path \<open>p\<close>; in a \<open>proper\<close> tree the directories are the entries
  that \<^verbatim>\<open>lstat\<close> calls directories.
\<close>

datatype tree = File stats error | Dir stats "(string \<times> tree) list"

fun holds :: "disk \<Rightarrow> path \<Rightarrow> tree \<Rightarrow> bool" where
  "holds src p (File st e) = (lstat src p = Inr st \<and> readdir src p = Inl e)"
| "holds src p (Dir st cs) =
     (lstat src p = Inr st \<and> readdir src p = Inr (map fst cs) \<and> distinct (map fst cs)
        \<and> (\<forall>(n, t) \<in> set cs. holds src (p @ sep @ n) t))"

fun stats_of :: "tree \<Rightarrow> stats" where
  "stats_of (File st e) = st"
| "stats_of (Dir st cs) = st"

fun proper :: "tree \<Rightarrow> bool" where
  "proper (File st e) = (\<not> isDirectory st)"
| "proper (Dir st cs) = (isDirectory st \<and> (\<forall>(n, t) \<in> set cs. proper t))"

text \<open>
  The walk as a recursion over the tree: it visits the directory at \<open>p\<close> as a round of
  the loop does, then each subdirectory that was put into \<open>dirs\<close>, the last in sorted
  order first, each with all that lies below it. The loop is shown below to compute this.
\<close>

fun walk_tree ::
  "disk \<Rightarrow> Filter option \<Rightarrow> 'c consumer option \<Rightarrow> path \<Rightarrow> tree \<Rightarrow> 'c walk_state
     \<Rightarrow> error option \<times> 'c walk_state" where
  "walk_tree src filter' consumer p (File st e) s = (Some e, enter p s)"
| "walk_tree src filter' consumer p (Dir st cs) s =
     (let childNames = sort (map fst cs)
      in case visit_children src filter' consumer p childNames childNames
                ((enter p s)\<lparr>dirs := []\<rparr>) of
           (Inl e, s1) \<Rightarrow> (Some e, s1)
         | (Inr sortedFilePaths, s1) \<Rightarrow>
             foldl (\<lambda>r (n, t).
                      case r of
                        (Some e, s2) \<Rightarrow> (Some e, s2)
                      | (None, s2) \<Rightarrow>
                          if n \<in> set (dirs s1)
                          then walk_tree src filter' consumer (p @ sep @ n) t s2
                          else (None, s2))
               (None, s1\<lparr>result := result s1 @ List.map_filter id sortedFilePaths\<rparr>)
               (rev (sort_key fst cs)))"

text \<open>
  The list that a walk without consumer returns, in the words of the specification as
  amended: the children of the directory that pass the filter and are no directories, in
  ascending order of their names; then, for each subdirectory that passes the filter, in
  descending order of the names, its path followed by its own listing.
\<close>

definition passes :: "Filter option \<Rightarrow> path \<Rightarrow> stats \<Rightarrow> bool" where
  "passes filter' filePath stat = (case filter' of None \<Rightarrow> True | Some f \<Rightarrow> f filePath stat)"

definition file_child :: "Filter option \<Rightarrow> path \<Rightarrow> string \<times> tree \<Rightarrow> bool" where
  "file_child f p = (\<lambda>(n, t). passes f (p @ sep @ n) (stats_of t) \<and> \<not> isDirectory (stats_of t))"

definition dir_child :: "Filter option \<Rightarrow> path \<Rightarrow> string \<times> tree \<Rightarrow> bool" where
  "dir_child f p = (\<lambda>(n, t). passes f (p @ sep @ n) (stats_of t) \<and> isDirectory (stats_of t))"

fun listing :: "Filter option \<Rightarrow> path \<Rightarrow> tree \<Rightarrow> path list" where
  "listing filter' p (File st e) = []"
| "listing filter' p (Dir st cs) =
     map (\<lambda>(n, t). p @ sep @ n) (filter (file_child filter' p) (sort_key fst cs))
     @ concat
         (map (\<lambda>(n, t). (p @ sep @ n) # listing filter' (p @ sep @ n) t)
            (rev (filter (dir_child filter' p) (sort_key fst cs))))"

text \<open>The paths of all entries below \<open>p\<close>.\<close>

fun entries :: "path \<Rightarrow> tree \<Rightarrow> path set" where
  "entries p (File st e) = {}"
| "entries p (Dir st cs) = (\<Union>(n, t) \<in> set cs. insert (p @ sep @ n) (entries (p @ sep @ n) t))"

text \<open>
  The form of every list that a walk returns for the directory at \<open>p\<close>, whatever the
  filter and the consumer decide: paths of children in ascending order of their names,
  then, for some of the subdirectories, in descending order of their names, the path of
  the subdirectory followed by a list of that form for it.
\<close>

inductive shaped :: "path \<Rightarrow> tree \<Rightarrow> path list \<Rightarrow> bool" where
  shaped_Dir:
    "sorted fs \<Longrightarrow> set fs \<subseteq> fst ` set cs \<Longrightarrow>
     sorted ds \<Longrightarrow> distinct ds \<Longrightarrow> set ds \<subseteq> fst ` set cs \<Longrightarrow>
     (\<forall>d \<in> set ds. \<exists>t. (d, t) \<in> set cs \<and> shaped (p @ sep @ d) t (R d)) \<Longrightarrow>
     shaped p (Dir st cs)
       (map (\<lambda>n. p @ sep @ n) fs @ concat (map (\<lambda>d. (p @ sep @ d) # R d) (rev ds)))"

subsection \<open>What a walk skips and what it touches\<close>

text \<open>
  The paths recorded as skipped, and the paths that a walk has put into its result or
  given to the consumer. \<open>inside q x\<close>: the path \<open>x\<close> is \<open>q\<close> or lies below \<open>q\<close>.
  Two sets of paths are \<open>apart\<close> when no path of the second is inside a path of the
  first. In a tree with \<open>plain_names\<close> no name contains the separator, as it is with the
  names that \<^verbatim>\<open>readdir\<close> returns.
\<close>

definition skipped_of :: "'c walk_state \<Rightarrow> path set" where
  "skipped_of s = {x. Skipped x \<in> set (trace s)}"

definition touched_of :: "'c walk_state \<Rightarrow> path set" where
  "touched_of s = set (result s) \<union> {x. Consumed x \<in> set (trace s)}"




text \<open>
  Auxiliary predicates of the proofs: what one child that is not skipped may change
  (\<open>kept\<close>), what the children of a directory \<open>p\<close> with names in \<open>N\<close> change
  (\<open>step_post\<close>), what the walk of the directory \<open>p\<close> changes (\<open>walk_post\<close>) and what
  the walks of its subdirectories with names in \<open>M\<close> change (\<open>subs_post\<close>).
\<close>

definition kept :: "path \<Rightarrow> string \<Rightarrow> 'c walk_state \<Rightarrow> (error + path option) \<times> 'c walk_state \<Rightarrow> bool" where
  "kept p n s out =
     (case out of (r, s1) \<Rightarrow>
        result s1 = result s \<and> addDirToResult s1 = addDirToResult s
        \<and> skipped_of s1 = skipped_of s
        \<and> (touched_of s1 = touched_of s \<or> touched_of s1 = touched_of s \<union> {p @ sep @ n})
        \<and> (dirs s1 = dirs s \<or> dirs s1 = dirs s @ [n])
        \<and> (\<forall>x. r = Inr (Some x) \<longrightarrow> x = p @ sep @ n))"

definition step_post ::
  "path \<Rightarrow> string set \<Rightarrow> 'c walk_state \<Rightarrow> 'c walk_state \<Rightarrow> path set \<Rightarrow> bool" where
  "step_post p N s s1 F =
     (\<exists>SK TD T ds. SK \<subseteq> N \<and> TD \<subseteq> N \<and> SK \<inter> TD = {}
        \<and> skipped_of s1 = skipped_of s \<union> (\<lambda>n. p @ sep @ n) ` SK
        \<and> touched_of s1 = touched_of s \<union> T \<and> T \<subseteq> (\<lambda>n. p @ sep @ n) ` TD
        \<and> dirs s1 = dirs s @ ds \<and> set ds \<subseteq> TD
        \<and> F \<subseteq> (\<lambda>n. p @ sep @ n) ` TD
        \<and> result s1 = result s \<and> addDirToResult s1 = addDirToResult s)"



subsection \<open>copyDir\<close>


record Link =
  link :: string
  "file" :: path

record copy_state =
  fileCopier :: FileCopier
  createdSourceDirs :: "path set"
  links :: "Link list"
  world :: world







subsection \<open>Example trees\<close>

definition dir_stats :: stats where "dir_stats = \<lparr>kind = Directory, mode = 493\<rparr>"
definition file_stats :: stats where "file_stats = \<lparr>kind = RegularFile, mode = 420\<rparr>"

definition example_tree :: tree where
  "example_tree =
     Dir dir_stats
       [(''z.txt'', File file_stats (Error ''ENOTDIR'')),
        (''b'', Dir dir_stats [(''c.txt'', File file_stats (Error ''ENOTDIR''))]),
        (''a.txt'', File file_stats (Error ''ENOTDIR''))]"

definition example_disk :: disk where
  "example_disk =
     \<lparr>readdir = (\<lambda>p. if p = ''root'' then Inr [''z.txt'', ''b'', ''a.txt'']
                     else if p = ''root/b'' then Inr [''c.txt'']
                     else Inl (Error ''ENOTDIR'')),
      lstat = (\<lambda>p. if p = ''root'' \<or> p = ''root/b'' then Inr dir_stats
                   else if p = ''root/a.txt'' \<or> p = ''root/z.txt'' \<or> p = ''root/b/c.txt''
                   then Inr file_stats
                   else Inl (Error ''ENOENT'')),
      readlink = (\<lambda>p. Inl (Error ''EINVAL''))\<rparr>"

definition two_dirs_children :: "(string \<times> tree) list" where
  "two_dirs_children =
     [(''a'', Dir dir_stats [(''x'', File file_stats (Error ''ENOTDIR''))]),
      (''b'', Dir dir_stats [(''y'', File file_stats (Error ''ENOTDIR''))])]"

definition two_dirs_disk :: disk where
  "two_dirs_disk =
     \<lparr>readdir = (\<lambda>p. if p = ''root'' then Inr [''a'', ''b'']
                     else if p = ''root/a'' then Inr [''x'']
                     else if p = ''root/b'' then Inr [''y'']
                     else Inl (Error ''ENOTDIR'')),
      lstat = (\<lambda>p. if p = ''root'' \<or> p = ''root/a'' \<or> p = ''root/b'' then Inr dir_stats
                   else if p = ''root/a/x'' \<or> p = ''root/b/y'' then Inr file_stats
                   else Inl (Error ''ENOENT'')),
      readlink = (\<lambda>p. Inl (Error ''EINVAL''))\<rparr>"






section \<open>Properties\<close>

subsection \<open>Permission bits\<close>

lemma to_int32_id: "0 \<le> x \<Longrightarrow> x < 2 ^ 31 \<Longrightarrow> to_int32 x = x"
  unfolding to_int32_def by (rule signed_take_bit_int_eq_self) auto

lemma to_int32_or: "to_int32 a OR to_int32 b = to_int32 (a OR b)"
  unfolding to_int32_def by (rule bit_eqI) (simp add: bit_signed_take_bit_iff bit_or_iff)

lemma js_or_eq: "js_or a b = to_int32 (a OR b)"
  by (simp add: js_or_def to_int32_or)

lemma to_int32_absorb: "to_int32 (to_int32 x OR c) = to_int32 (x OR c)"
  unfolding to_int32_def by (rule bit_eqI) (simp add: bit_signed_take_bit_iff bit_or_iff)

lemma js_or_js_or: "js_or (js_or a b) c = to_int32 (a OR b OR c)"
  by (simp only: js_or_eq to_int32_absorb or.assoc)

lemma bit_64: "bit (64::int) k = (k = 6)"
proof -
  have "bit ((2::int) ^ 6) k = (k = 6)" by (simp only: bit_exp_iff) auto
  then show ?thesis by simp
qed

lemma bit_36: "bit (36::int) k = (k = 2 \<or> k = 5)"
proof -
  have "bit ((2::int) ^ 2 OR 2 ^ 5) k = (k = 2 \<or> k = 5)"
    by (simp only: bit_or_iff bit_exp_iff) auto
  then show ?thesis by simp
qed

lemma bit_9: "bit (9::int) k = (k = 0 \<or> k = 3)"
proof -
  have "bit ((2::int) ^ 0 OR 2 ^ 3) k = (k = 0 \<or> k = 3)"
    by (simp only: bit_or_iff bit_exp_iff) auto
  then show ?thesis by simp
qed

lemma owner_execute_bit: "owner_execute m = bit m 6"
proof -
  have "(to_int32 m AND 64 \<noteq> 0) = bit (to_int32 m) 6"
  proof
    assume "to_int32 m AND 64 \<noteq> 0"
    then obtain k where "bit (to_int32 m AND 64) k" 
      using bit_eq_iff[of "to_int32 m AND 64" 0] by auto
    then show "bit (to_int32 m) 6" by (auto simp add: bit_and_iff bit_64)
  next
    assume "bit (to_int32 m) 6"
    then have "bit (to_int32 m AND 64) 6" by (simp add: bit_and_iff bit_64)
    then show "to_int32 m AND 64 \<noteq> 0" by auto
  qed
  moreover have "bit (to_int32 m) 6 = bit m 6"
    by (simp add: to_int32_def bit_signed_take_bit_iff)
  moreover have "to_int32 64 = 64" by (rule to_int32_id) simp_all
  ultimately show ?thesis by (simp add: owner_execute_def js_and_def S_IXUSR_def)
qed

lemma fixed_mode_to_int32:
  "fixed_mode m = to_int32 (m OR 36 OR (if bit m 6 then 9 else 0))"
proof (cases "bit m 6")
  case True
  have "js_or (js_or (js_or (js_or m 8) 1) 32) 4 = to_int32 (((m OR 8) OR 1) OR 32 OR 4)"
    by (simp only: js_or_eq to_int32_absorb or.assoc)
  also have "((m OR 8) OR 1) OR 32 OR 4 = m OR 36 OR 9"
    by (simp add: or.assoc)
  finally show ?thesis using True
    by (simp add: fixed_mode_def owner_execute_bit S_IXGRP_def S_IXOTH_def S_IRGRP_def S_IROTH_def)
next
  case False
  have "js_or (js_or m 32) 4 = to_int32 (m OR 36)"
    by (simp add: js_or_js_or)
  then show ?thesis using False
    by (simp add: fixed_mode_def owner_execute_bit S_IXGRP_def S_IXOTH_def S_IRGRP_def S_IROTH_def)
qed

lemma fixed_mode_in_range:
  assumes "0 \<le> m" "m < 2 ^ 31"
  shows "fixed_mode m = m OR 36 OR (if bit m 6 then 9 else 0)"
proof -
  let ?c = "36 OR (if bit m 6 then 9 else (0::int))"
  have c: "0 \<le> ?c" "?c < 2 ^ 31" by simp_all
  have "0 \<le> m OR ?c" using assms c by simp
  moreover have "m OR ?c < 2 ^ 31" using assms(1,2) c(2) by (rule OR_upper)
  ultimately have "to_int32 (m OR ?c) = m OR ?c" by (rule to_int32_id)
  then show ?thesis by (simp add: fixed_mode_to_int32)
qed

lemma fixed_mode_448: "fixed_mode 448 = 493"
  by (simp add: fixed_mode_in_range)

lemma fixed_mode_420: "fixed_mode 420 = 420"
  by (simp add: fixed_mode_in_range)

lemma fixed_mode_493: "fixed_mode 493 = 493"
  by (simp add: fixed_mode_in_range)

text \<open>
  Claim C4. For a mode that a file system reports (a non-negative number below \<open>2 ^ 31\<close>):
  when the owner may execute (bit 6), group and others may execute in the result (bits 3
  and 0); group and others may read in the result (bits 5 and 2); every bit of the result
  is a bit of the input or one of these. Octal 755 stays 755 (493), 700 becomes 755 (448
  to 493), 644 stays 644 (420).
\<close>

theorem fixed_mode_bits:
  assumes "0 \<le> m" and "m < 2 ^ 31"
  shows "(owner_execute m \<longrightarrow> bit (fixed_mode m) 3 \<and> bit (fixed_mode m) 0)
       \<and> bit (fixed_mode m) 5 \<and> bit (fixed_mode m) 2
       \<and> (\<forall>k. bit (fixed_mode m) k \<longleftrightarrow>
                 bit m k \<or> k = 5 \<or> k = 2 \<or> (owner_execute m \<and> (k = 3 \<or> k = 0)))
       \<and> fixed_mode 493 = 493 \<and> fixed_mode 448 = 493 \<and> fixed_mode 420 = 420"
  using assms
  by (auto simp add: fixed_mode_in_range owner_execute_bit bit_or_iff bit_36 bit_9
        fixed_mode_448 fixed_mode_420 fixed_mode_493)

theorem fixed_mode_bits_witness:
  "(0::int) \<le> 448 \<and> (448::int) < 2 ^ 31 \<and> owner_execute 448
     \<and> bit (fixed_mode 448) 3 \<and> bit (fixed_mode 448) 0
     \<and> bit (fixed_mode 448) 5 \<and> bit (fixed_mode 448) 2"
  using fixed_mode_bits [of 448] by (simp add: owner_execute_bit)

subsection \<open>The default hard-link preference\<close>

text \<open>
  Claim C7, as the code has it. The default is false on win32 whatever the environment
  says. On another platform \<^verbatim>\<open>USE_HARD_LINKS=true\<close> makes it true,
  \<^verbatim>\<open>USE_HARD_LINKS=false\<close> makes it false, and with any other value or none it is the
  value of \<^verbatim>\<open>is-ci\<close>.
\<close>

theorem isUseHardLink_default_cases:
  "isUseHardLink_default platform e isCi =
     (platform \<noteq> ''win32'' \<and>
        (if e = Some ''true'' then True else if e = Some ''false'' then False else isCi))"
  by (auto simp add: isUseHardLink_default_def)

text \<open>
  The claim as written fails: on win32 with \<^verbatim>\<open>USE_HARD_LINKS=true\<close> the default is
  false, also when a CI environment is detected.
\<close>

theorem override_on_win32_counterexample:
  "isUseHardLink_default ''win32'' (Some ''true'') True = False"
  by (simp add: isUseHardLink_default_def)

subsection \<open>copyOrLinkFile and copyFile\<close>

lemma copyOrLinkFile_no_stats:
  "copyOrLinkFile fs src dest None False w =
     (fs w (Fcopy src dest None), None, w @ [Fcopy src dest None])"
  by (simp add: copyOrLinkFile_def perform_def)

lemma copyOrLinkFile_changed:
  assumes "fixed_mode (mode st) \<noteq> mode st"
  shows "copyOrLinkFile fs src dest (Some st) hl w =
           (fs w (Fcopy src dest (Some (fixed_mode (mode st)))),
            Some (st\<lparr>mode := fixed_mode (mode st)\<rparr>),
            w @ [Fcopy src dest (Some (fixed_mode (mode st)))])"
  using assms by (simp add: copyOrLinkFile_def perform_def Let_def)

lemma copyOrLinkFile_unchanged:
  assumes "fixed_mode (mode st) = mode st"
  shows "copyOrLinkFile fs src dest (Some st) hl w =
           (if hl then (fs w (Link src dest), Some st, w @ [Link src dest])
            else (fs w (Fcopy src dest (Some (mode st))), Some st,
                  w @ [Fcopy src dest (Some (mode st))]))"
  using assms by (simp add: copyOrLinkFile_def perform_def Let_def)

lemma copyOrLinkFile_False:
  "copyOrLinkFile fs src dest stat False w =
     (fs w (Fcopy src dest (map_option (\<lambda>st. fixed_mode (mode st)) stat)),
      map_option (\<lambda>st. st\<lparr>mode := fixed_mode (mode st)\<rparr>) stat,
      w @ [Fcopy src dest (map_option (\<lambda>st. fixed_mode (mode st)) stat)])"
  by (cases stat) (simp_all add: copyOrLinkFile_def perform_def Let_def)

text \<open>
  Claim C10. \<^verbatim>\<open>copyFile\<close> with \<^verbatim>\<open>isEnsureDir\<close> left out or true first creates the
  parent directory of the destination and, when that succeeds, copies the content with no
  mode given; with \<^verbatim>\<open>isEnsureDir\<close> false it only copies. Whatever the flag, the calls it
  makes are among these and none is a hard link.
\<close>

theorem copyFile_copies:
  "copyFile fs dirname src dest None w =
     (case fs w (EnsureDir (dirname dest)) of
        Inl e \<Rightarrow> (Inl e, w @ [EnsureDir (dirname dest)])
      | Inr u \<Rightarrow> (fs (w @ [EnsureDir (dirname dest)]) (Fcopy src dest None),
                  w @ [EnsureDir (dirname dest), Fcopy src dest None]))
   \<and> copyFile fs dirname src dest (Some True) w = copyFile fs dirname src dest None w
   \<and> copyFile fs dirname src dest (Some False) w =
       (fs w (Fcopy src dest None), w @ [Fcopy src dest None])
   \<and> (\<exists>ops. snd (copyFile fs dirname src dest b w) = w @ ops
              \<and> filter is_Link ops = []
              \<and> ops \<in> {[EnsureDir (dirname dest)],
                        [EnsureDir (dirname dest), Fcopy src dest None],
                        [Fcopy src dest None]})"
  by (cases b; cases "fs w (EnsureDir (dirname dest))")
     (auto simp add: copyFile_def copyOrLinkFile_no_stats perform_def split: sum.splits option.splits)

subsection \<open>FileCopier\<close>

lemma link_wanted_False: "\<not> isUseHardLink this \<Longrightarrow> link_wanted this dest = False"
  by (simp add: link_wanted_def split: option.splits)

lemma copy_try_no_link:
  assumes "\<not> isUseHardLink this"
  shows "\<exists>r stat1 ops. copy_try fs this src dest stat w = (r, stat1, w @ ops)
            \<and> filter is_Link ops = []"
proof -
  have "\<exists>r stat1 ops. copyOrLinkFile fs src dest stat False w = (r, stat1, w @ ops)
            \<and> filter is_Link ops = []"
    by (simp add: copyOrLinkFile_False)
  then show ?thesis using assms
    by (auto simp add: copy_try_def link_wanted_False perform_def Let_def
             split: option.splits sum.splits prod.splits)
qed

lemma copy_no_link:
  assumes "\<not> isUseHardLink this"
  shows "\<exists>r this1 stat1 ops. copy fs this src dest stat w = (r, this1, stat1, w @ ops)
            \<and> \<not> isUseHardLink this1 \<and> filter is_Link ops = []"
proof -
  obtain r stat1 ops where t: "copy_try fs this src dest stat w = (r, stat1, w @ ops)"
      and ops: "filter is_Link ops = []"
    using copy_try_no_link [OF assms] by blast
  show ?thesis
  proof (cases r)
    case (Inr u)
    then show ?thesis using t ops assms by (simp add: copy_def)
  next
    case (Inl e)
    then show ?thesis using t ops assms
      by (simp add: copy_def copyOrLinkFile_False)
  qed
qed

lemma copy_calls_no_link:
  "\<not> isUseHardLink this \<Longrightarrow>
     \<exists>this1 ops. copy_calls fs this calls w = (this1, w @ ops)
        \<and> \<not> isUseHardLink this1 \<and> filter is_Link ops = []"
proof (induction calls arbitrary: this w)
  case Nil
  then show ?case by simp
next
  case (Cons c calls)
  obtain src dest stat where c: "c = (src, dest, stat)" by (cases c) auto
  obtain r this1 stat1 ops where
    s: "copy fs this src dest stat w = (r, this1, stat1, w @ ops)"
    and f: "\<not> isUseHardLink this1" and o: "filter is_Link ops = []"
    using copy_no_link [OF Cons.prems] by blast
  obtain this2 ops2 where
    r: "copy_calls fs this1 calls (w @ ops) = (this2, (w @ ops) @ ops2)"
    and f2: "\<not> isUseHardLink this2" and o2: "filter is_Link ops2 = []"
    using Cons.IH [OF f] by blast
  show ?case using c s r f2 o o2 by simp
qed

text \<open>
  Claim C3. Let the \<^verbatim>\<open>try\<close> block of \<^verbatim>\<open>copy\<close> end with the error \<open>e\<close>, as it does
  when the hard link fails. If the code of \<open>e\<close> is EXDEV, \<^verbatim>\<open>copy\<close> then copies the
  content, its outcome is the outcome of that copy, the flag of the instance is false
  afterwards, and whatever calls follow on the instance, the flag stays false and none of
  them makes a hard link. If the code is another one, \<^verbatim>\<open>copy\<close> fails with \<open>e\<close> itself,
  nothing more is done and the flag is as it was.
\<close>

theorem copy_cross_device:
  assumes "copy_try fs this src dest stat w = (Inl e, stat1, w1)"
  shows "(code e = ''EXDEV'' \<longrightarrow>
            (let m = map_option (\<lambda>st. fixed_mode (mode st)) stat1;
                 this1 = this\<lparr>isUseHardLink := False\<rparr>;
                 w2 = w1 @ [Fcopy src dest m]
             in copy fs this src dest stat w =
                  (fs w1 (Fcopy src dest m), this1,
                   map_option (\<lambda>st. st\<lparr>mode := fixed_mode (mode st)\<rparr>) stat1, w2)
                \<and> (\<forall>calls. \<exists>this2 ops. copy_calls fs this1 calls w2 = (this2, w2 @ ops)
                       \<and> \<not> isUseHardLink this2 \<and> filter is_Link ops = [])))
       \<and> (code e \<noteq> ''EXDEV'' \<longrightarrow> copy fs this src dest stat w = (Inl e, this, stat1, w1))"
proof -
  let ?m = "map_option (\<lambda>st. fixed_mode (mode st)) stat1"
  let ?this1 = "this\<lparr>isUseHardLink := False\<rparr>"
  let ?w2 = "w1 @ [Fcopy src dest ?m]"
  have later: "\<forall>calls. \<exists>this2 ops. copy_calls fs ?this1 calls ?w2 = (this2, ?w2 @ ops)
                  \<and> \<not> isUseHardLink this2 \<and> filter is_Link ops = []"
  proof
    fix calls
    have "\<not> isUseHardLink ?this1" by simp
    then show "\<exists>this2 ops. copy_calls fs ?this1 calls ?w2 = (this2, ?w2 @ ops)
                  \<and> \<not> isUseHardLink this2 \<and> filter is_Link ops = []"
      by (rule copy_calls_no_link)
  qed
  have flag: "(if isUseHardLink this then ?this1 else this) = ?this1"
    by simp
  have fallback: "code e = ''EXDEV'' \<Longrightarrow>
      copy fs this src dest stat w =
        (fs w1 (Fcopy src dest ?m), ?this1,
         map_option (\<lambda>st. st\<lparr>mode := fixed_mode (mode st)\<rparr>) stat1, ?w2)"
    using assms by (simp add: copy_def copyOrLinkFile_False flag del: append_assoc)
  have other: "code e \<noteq> ''EXDEV'' \<Longrightarrow>
      copy fs this src dest stat w = (Inl e, this, stat1, w1)"
    using assms by (simp add: copy_def)
  show ?thesis
    unfolding Let_def using later fallback other by blast
qed

theorem copy_cross_device_witness:
  "(let fs = (\<lambda>w op. if is_Link op then Inl (Error ''EXDEV'') else Inr ());
        this = \<lparr>isUseHardLink = True, isUseHardLinkFunction = None, transformer = None\<rparr>
    in copy_try fs this ''a'' ''b'' None [] = (Inl (Error ''EXDEV''), None, [Link ''a'' ''b''])
       \<and> copy fs this ''a'' ''b'' None [] =
           (Inr (), this\<lparr>isUseHardLink := False\<rparr>, None,
            [Link ''a'' ''b'', Fcopy ''a'' ''b'' None]))
   \<and> (let fs = (\<lambda>w op. if is_Link op then Inl (Error ''EPERM'') else Inr ());
          this = \<lparr>isUseHardLink = True, isUseHardLinkFunction = None, transformer = None\<rparr>
      in copy_try fs this ''a'' ''b'' None [] = (Inl (Error ''EPERM''), None, [Link ''a'' ''b''])
         \<and> copy fs this ''a'' ''b'' None [] =
             (Inl (Error ''EPERM''), this, None, [Link ''a'' ''b'']))"
proof -
  let ?fs1 = "\<lambda>(w::world) op. if is_Link op then Inl (Error ''EXDEV'') else Inr ()"
  let ?fs2 = "\<lambda>(w::world) op. if is_Link op then Inl (Error ''EPERM'') else Inr ()"
  let ?c = "\<lparr>isUseHardLink = True, isUseHardLinkFunction = None, transformer = None\<rparr>"
  have t1: "copy_try ?fs1 ?c ''a'' ''b'' None [] =
              (Inl (Error ''EXDEV''), None, [] @ [Link ''a'' ''b''])"
    by (simp add: copy_try_def copyOrLinkFile_def link_wanted_def perform_def)
  have t2: "copy_try ?fs2 ?c ''a'' ''b'' None [] =
              (Inl (Error ''EPERM''), None, [] @ [Link ''a'' ''b''])"
    by (simp add: copy_try_def copyOrLinkFile_def link_wanted_def perform_def)
  show ?thesis
    using copy_cross_device [OF t1] copy_cross_device [OF t2] t1 t2
    by (simp add: Let_def)
qed

text \<open>
  Claim C6. With a transformer and the Stats of a regular file, \<^verbatim>\<open>copy\<close> calls the
  transformer with the source path. If it returns some content, at once or as the value
  of a promise, the \<^verbatim>\<open>try\<close> block writes exactly that content to the destination and
  does nothing else; unless the write itself fails with EXDEV, this is all \<^verbatim>\<open>copy\<close>
  does: no link, no copy, the Stats and the flag untouched. If it returns \<^verbatim>\<open>null\<close>, at
  once or as the value of a promise, the \<^verbatim>\<open>try\<close> block is the call of
  \<^verbatim>\<open>copyOrLinkFile\<close>.
\<close>

theorem copy_transformer:
  assumes "transformer this = Some t" and "stat = Some st" and "isFile st"
  shows "(t src = Data c \<or> t src = Promise (Inr (Some c)) \<longrightarrow>
            copy_try fs this src dest stat w =
              (fs w (WriteFile dest c), stat, w @ [WriteFile dest c])
            \<and> ((\<forall>e. fs w (WriteFile dest c) = Inl e \<longrightarrow> code e \<noteq> ''EXDEV'') \<longrightarrow>
                 copy fs this src dest stat w =
                   (fs w (WriteFile dest c), this, stat, w @ [WriteFile dest c])))
       \<and> (t src = Null \<or> t src = Promise (Inr None) \<longrightarrow>
            copy_try fs this src dest stat w =
              copyOrLinkFile fs src dest stat (link_wanted this dest) w)"
  using assms
  by (auto simp add: copy_def copy_try_def perform_def split: sum.splits)

theorem copy_transformer_witness:
  "(let t = (\<lambda>p. if p = ''a'' then Data ''text'' else Null);
        c = \<lparr>isUseHardLink = True, isUseHardLinkFunction = None, transformer = Some t\<rparr>;
        st = \<lparr>kind = RegularFile, mode = 420\<rparr>;
        fs = (\<lambda>w op. Inr ())
    in isFile st
       \<and> copy fs c ''a'' ''b'' (Some st) [] = (Inr (), c, Some st, [WriteFile ''b'' ''text''])
       \<and> copy_try fs c ''x'' ''y'' (Some st) [] = (Inr (), Some st, [Link ''x'' ''y'']))
   \<and> (let t = (\<lambda>p. if p = ''a'' then Promise (Inr (Some ''data'')) else Promise (Inr None));
          c = \<lparr>isUseHardLink = True, isUseHardLinkFunction = None, transformer = Some t\<rparr>;
          st = \<lparr>kind = RegularFile, mode = 420\<rparr>;
          fs = (\<lambda>w op. Inr ())
      in copy fs c ''a'' ''b'' (Some st) [] = (Inr (), c, Some st, [WriteFile ''b'' ''data''])
         \<and> copy_try fs c ''x'' ''y'' (Some st) [] = (Inr (), Some st, [Link ''x'' ''y'']))"
proof -
  let ?t1 = "\<lambda>p::path. if p = ''a'' then Data ''text'' else Null"
  let ?t2 = "\<lambda>p::path. if p = ''a'' then Promise (Inr (Some ''data'')) else Promise (Inr None)"
  let ?c1 = "\<lparr>isUseHardLink = True, isUseHardLinkFunction = None, transformer = Some ?t1\<rparr>"
  let ?c2 = "\<lparr>isUseHardLink = True, isUseHardLinkFunction = None, transformer = Some ?t2\<rparr>"
  let ?st = "\<lparr>kind = RegularFile, mode = 420\<rparr>"
  let ?fs = "\<lambda>(w::world) (op::fs_op). (Inr () :: error + unit)"
  have f: "isFile ?st" by (simp add: isFile_def)
  have l: "copyOrLinkFile ?fs ''x'' ''y'' (Some ?st) True [] = (Inr (), Some ?st, [Link ''x'' ''y''])"
    by (simp add: copyOrLinkFile_def perform_def fixed_mode_420)
  have a1: "copy ?fs ?c1 ''a'' ''b'' (Some ?st) [] =
             (Inr (), ?c1, Some ?st, [WriteFile ''b'' ''text''])"
    using copy_transformer [of ?c1 ?t1 "Some ?st" ?st "''a''" "''text''" ?fs "''b''" "[]"] f
    by simp
  have b1: "copy_try ?fs ?c1 ''x'' ''y'' (Some ?st) [] = (Inr (), Some ?st, [Link ''x'' ''y''])"
    using copy_transformer [of ?c1 ?t1 "Some ?st" ?st "''x''" "''text''" ?fs "''y''" "[]"] f l
    by (simp add: link_wanted_def)
  have a2: "copy ?fs ?c2 ''a'' ''b'' (Some ?st) [] =
             (Inr (), ?c2, Some ?st, [WriteFile ''b'' ''data''])"
    using copy_transformer [of ?c2 ?t2 "Some ?st" ?st "''a''" "''data''" ?fs "''b''" "[]"] f
    by simp
  have b2: "copy_try ?fs ?c2 ''x'' ''y'' (Some ?st) [] = (Inr (), Some ?st, [Link ''x'' ''y''])"
    using copy_transformer [of ?c2 ?t2 "Some ?st" ?st "''x''" "''data''" ?fs "''y''" "[]"] f l
    by (simp add: link_wanted_def)
  show ?thesis using a1 b1 a2 b2 f by (simp add: Let_def)
qed

text \<open>
  Claim C8. When the permission fix changes the mode of the Stats given, a call of
  \<^verbatim>\<open>copyOrLinkFile\<close> that was asked to hard-link copies the content instead, with the
  fixed mode. The flag is an argument passed by value: a later call asked to hard-link a
  file whose mode needs no fix makes the link. For a \<^verbatim>\<open>FileCopier\<close> that wants links,
  the copy leaves the instance as it was (unless the copy fails with EXDEV), and its next
  call for a file whose mode needs no fix makes a hard link.
\<close>

theorem copyOrLinkFile_permission_fix:
  assumes "fixed_mode (mode st) \<noteq> mode st" and "fixed_mode (mode st2) = mode st2"
  shows "(let op = Fcopy src dest (Some (fixed_mode (mode st)))
          in copyOrLinkFile fs src dest (Some st) True w =
               (fs w op, Some (st\<lparr>mode := fixed_mode (mode st)\<rparr>), w @ [op]))
       \<and> copyOrLinkFile fs src2 dest2 (Some st2) True w2 =
           (fs w2 (Link src2 dest2), Some st2, w2 @ [Link src2 dest2])
       \<and> (link_wanted this dest \<and> transformer this = None
            \<and> (\<forall>e. fs w (Fcopy src dest (Some (fixed_mode (mode st)))) = Inl e
                    \<longrightarrow> code e \<noteq> ''EXDEV'')
          \<longrightarrow> (let op = Fcopy src dest (Some (fixed_mode (mode st)))
               in copy fs this src dest (Some st) w =
                    (fs w op, this, Some (st\<lparr>mode := fixed_mode (mode st)\<rparr>), w @ [op])))
       \<and> (link_wanted this dest2 \<and> transformer this = None
          \<longrightarrow> copy_try fs this src2 dest2 (Some st2) w2 =
                (fs w2 (Link src2 dest2), Some st2, w2 @ [Link src2 dest2]))"
  using assms
  by (auto simp add: copyOrLinkFile_changed copyOrLinkFile_unchanged copy_def copy_try_def Let_def
           split: sum.splits)

theorem copyOrLinkFile_permission_fix_witness:
  "(let st = \<lparr>kind = RegularFile, mode = 448\<rparr>;
        st2 = \<lparr>kind = RegularFile, mode = 420\<rparr>;
        c = \<lparr>isUseHardLink = True, isUseHardLinkFunction = None, transformer = None\<rparr>;
        fs = (\<lambda>w op. Inr ())
    in fixed_mode (mode st) \<noteq> mode st \<and> fixed_mode (mode st2) = mode st2
       \<and> copyOrLinkFile fs ''a'' ''b'' (Some st) True [] =
           (Inr (), Some (st\<lparr>mode := 493\<rparr>), [Fcopy ''a'' ''b'' (Some 493)])
       \<and> copy fs c ''a'' ''b'' (Some st) [] =
           (Inr (), c, Some (st\<lparr>mode := 493\<rparr>), [Fcopy ''a'' ''b'' (Some 493)])
       \<and> copy_try fs c ''c'' ''d'' (Some st2) [Fcopy ''a'' ''b'' (Some 493)] =
           (Inr (), Some st2, [Fcopy ''a'' ''b'' (Some 493), Link ''c'' ''d'']))"
proof -
  let ?st = "\<lparr>kind = RegularFile, mode = 448\<rparr>"
  let ?st2 = "\<lparr>kind = RegularFile, mode = 420\<rparr>"
  let ?c = "\<lparr>isUseHardLink = True, isUseHardLinkFunction = None, transformer = None\<rparr>"
  let ?fs = "\<lambda>(w::world) (op::fs_op). (Inr () :: error + unit)"
  have h1: "fixed_mode (mode ?st) \<noteq> mode ?st" by (simp add: fixed_mode_448)
  have h2: "fixed_mode (mode ?st2) = mode ?st2" by (simp add: fixed_mode_420)
  have l: "link_wanted ?c ''b''" "link_wanted ?c ''d''" by (simp_all add: link_wanted_def)
  show ?thesis
    using copyOrLinkFile_permission_fix [OF h1 h2, of "''a''" "''b''" ?fs "[]" "''c''" "''d''"
            "[Fcopy ''a'' ''b'' (Some 493)]" ?c] h1 h2 l
    by (simp add: Let_def fixed_mode_448)
qed

subsection \<open>The loop computes the recursion over the tree\<close>

lemma visit_child_dirs:
  "visit_child src f c p ns n s = (r, s1) \<Longrightarrow> dirs s1 = dirs s \<or> dirs s1 = dirs s @ [n]"
  by (auto simp add: visit_child_def classify_def Let_def
      split: sum.splits if_splits option.splits prod.splits consumed.splits)

lemma visit_children_dirs:
  "visit_children src f c p ns names s = (r, s1) \<Longrightarrow>
     \<exists>ds. dirs s1 = dirs s @ ds \<and> set ds \<subseteq> set names \<and> (distinct names \<longrightarrow> distinct ds)"
proof (induction names arbitrary: s r s1)
  case Nil
  then show ?case by simp
next
  case (Cons n names)
  obtain r0 s0 where v: "visit_child src f c p ns n s = (r0, s0)" by (cases "visit_child src f c p ns n s")
  from visit_child_dirs [OF v] have d0: "dirs s0 = dirs s \<or> dirs s0 = dirs s @ [n]" .
  show ?case
  proof (cases r0)
    case (Inl e)
    then show ?thesis using Cons.prems v d0 by auto
  next
    case (Inr child)
    obtain r2 s2 where w: "visit_children src f c p ns names s0 = (r2, s2)"
      by (cases "visit_children src f c p ns names s0")
    from Cons.IH [OF w] obtain ds where
      ds: "dirs s2 = dirs s0 @ ds" "set ds \<subseteq> set names" "distinct names \<longrightarrow> distinct ds"
      by blast
    have "s1 = s2" using Cons.prems v w Inr by (auto split: sum.splits)
    then show ?thesis using ds d0 by auto
  qed
qed

lemma foldl_error:
  "foldl (\<lambda>r (n, t). case r of (Some e, s2) \<Rightarrow> (Some e, s2) | (None, s2) \<Rightarrow> g n t s2)
     (Some e, s) Y = (Some e, s)"
  by (induction Y) (auto split: prod.splits)

lemma walk_loop_dirs:
  assumes IH: "\<And>n t q s. (n, t) \<in> set Y \<Longrightarrow>
      walk_loop src f c (q @ [p @ sep @ n]) s =
        (case walk_tree src f c (p @ sep @ n) t s of
           (Some e, s1) \<Rightarrow> Some (Inl e, s1)
         | (None, s1) \<Rightarrow> walk_loop src f c q s1)"
  shows "walk_loop src f c (q @ map (\<lambda>child. p @ sep @ child) (filter (\<lambda>n. n \<in> D) (map fst Y))) s =
    (case foldl (\<lambda>r (n, t).
                      case r of
                        (Some e, s2) \<Rightarrow> (Some e, s2)
                      | (None, s2) \<Rightarrow>
                          if n \<in> D
                          then walk_tree src f c (p @ sep @ n) t s2
                          else (None, s2)) (None, s) (rev Y) of
       (Some e, s1) \<Rightarrow> Some (Inl e, s1)
     | (None, s1) \<Rightarrow> walk_loop src f c q s1)"
  using IH
proof (induction Y arbitrary: s rule: rev_induct)
  case Nil
  then show ?case by simp
next
  case (snoc x Y)
  obtain n t where x: "x = (n, t)" by (cases x)
  have ih: "\<And>s. walk_loop src f c (q @ map (\<lambda>child. p @ sep @ child) (filter (\<lambda>n. n \<in> D) (map fst Y))) s =
    (case foldl (\<lambda>r (n, t).
                      case r of
                        (Some e, s2) \<Rightarrow> (Some e, s2)
                      | (None, s2) \<Rightarrow>
                          if n \<in> D
                          then walk_tree src f c (p @ sep @ n) t s2
                          else (None, s2)) (None, s) (rev Y) of
       (Some e, s1) \<Rightarrow> Some (Inl e, s1)
     | (None, s1) \<Rightarrow> walk_loop src f c q s1)"
    using snoc.IH snoc.prems by simp
  show ?case
  proof (cases "n \<in> D")
    case False
    then show ?thesis using ih x by simp
  next
    case True
    have step: "walk_loop src f c ((q @ map (\<lambda>child. p @ sep @ child) (filter (\<lambda>n. n \<in> D) (map fst Y))) @ [p @ sep @ n]) s =
        (case walk_tree src f c (p @ sep @ n) t s of
           (Some e, s1) \<Rightarrow> Some (Inl e, s1)
         | (None, s1) \<Rightarrow> walk_loop src f c (q @ map (\<lambda>child. p @ sep @ child) (filter (\<lambda>n. n \<in> D) (map fst Y))) s1)"
      using snoc.prems [of n t "q @ map (\<lambda>child. p @ sep @ child) (filter (\<lambda>n. n \<in> D) (map fst Y))" s] x
      by simp
    obtain r1 s1 where w: "walk_tree src f c (p @ sep @ n) t s = (r1, s1)"
      by (cases "walk_tree src f c (p @ sep @ n) t s")
    show ?thesis
    proof (cases r1)
      case None
      then show ?thesis using step w ih [of s1] x True by simp
    next
      case (Some e)
      then show ?thesis using step w x True by (simp add: foldl_error)
    qed
  qed
qed

lemma sorted_dirs_filter:
  assumes "distinct (map fst cs)" and "distinct ds" and "set ds \<subseteq> fst ` set cs"
  shows "sort ds = filter (\<lambda>n. n \<in> set ds) (map fst (sort_key fst cs))"
proof (rule sorted_distinct_set_unique)
  show "sorted (sort ds)" by simp
  show "distinct (sort ds)" using assms by simp
  have "sorted (map fst (sort_key fst cs))" by simp
  then show "sorted (filter (\<lambda>n. n \<in> set ds) (map fst (sort_key fst cs)))"
    using sorted_filter [of id] by (metis list.map_id sorted_filter)
  have "distinct (map fst (sort_key fst cs))" using assms(1)
    by (metis distinct_map distinct_sort inj_on_def set_sort)
  then show "distinct (filter (\<lambda>n. n \<in> set ds) (map fst (sort_key fst cs)))" by simp
  show "set (sort ds) = set (filter (\<lambda>n. n \<in> set ds) (map fst (sort_key fst cs)))"
    using assms(3) by auto
qed

lemma walk_loop_tree:
  "holds src p t \<Longrightarrow>
     walk_loop src f c (q @ [p]) s =
       (case walk_tree src f c p t s of
          (Some e, s1) \<Rightarrow> Some (Inl e, s1)
        | (None, s1) \<Rightarrow> walk_loop src f c q s1)"
proof (induction t arbitrary: p q s)
  case (File st e)
  then show ?case
    by (subst walk_loop.simps) (simp add: visit_dir_def)
next
  case (Dir st cs)
  have rd: "readdir src p = Inr (map fst cs)" and dist: "distinct (map fst cs)"
    and sub: "\<And>n t. (n, t) \<in> set cs \<Longrightarrow> holds src (p @ sep @ n) t"
    using Dir.prems by auto
  let ?names = "sort (map fst cs)"
  obtain r s1 where v: "visit_children src f c p ?names ?names ((enter p s)\<lparr>dirs := []\<rparr>) = (r, s1)"
    by (cases "visit_children src f c p ?names ?names ((enter p s)\<lparr>dirs := []\<rparr>)")
  show ?case
  proof (cases r)
    case (Inl e)
    then show ?thesis using v rd
      by (subst walk_loop.simps) (simp add: visit_dir_def)
  next
    case (Inr fps)
    from visit_children_dirs [OF v] obtain ds where
      ds: "dirs s1 = ds" "set ds \<subseteq> set ?names" "distinct ds"
      using dist by auto
    have eq: "sort (dirs s1) = filter (\<lambda>n. n \<in> set (dirs s1)) (map fst (sort_key fst cs))"
      using sorted_dirs_filter [OF dist, of "dirs s1"] ds by auto
    have IH: "\<And>n t q s. (n, t) \<in> set (sort_key fst cs) \<Longrightarrow>
      walk_loop src f c (q @ [p @ sep @ n]) s =
        (case walk_tree src f c (p @ sep @ n) t s of
           (Some e, s1) \<Rightarrow> Some (Inl e, s1)
         | (None, s1) \<Rightarrow> walk_loop src f c q s1)"
    proof -
      fix n t q s
      assume "(n, t) \<in> set (sort_key fst cs)"
      then have m: "(n, t) \<in> set cs" by simp
      then have "t \<in> Basic_BNFs.snds (n, t)" by simp
      from Dir.IH [OF m this sub [OF m]]
      show "walk_loop src f c (q @ [p @ sep @ n]) s =
        (case walk_tree src f c (p @ sep @ n) t s of
           (Some e, s1) \<Rightarrow> Some (Inl e, s1)
         | (None, s1) \<Rightarrow> walk_loop src f c q s1)" .
    qed
    have "walk_loop src f c (q @ [p]) s =
            walk_loop src f c (q @ map (\<lambda>child. p @ sep @ child) (sort (dirs s1)))
              (s1\<lparr>result := result s1 @ List.map_filter id fps\<rparr>)"
      using v rd Inr by (subst walk_loop.simps) (simp add: visit_dir_def)
    also have "\<dots> = walk_loop src f c (q @ map (\<lambda>child. p @ sep @ child)
                       (filter (\<lambda>n. n \<in> set (dirs s1)) (map fst (sort_key fst cs))))
              (s1\<lparr>result := result s1 @ List.map_filter id fps\<rparr>)"
      using eq by simp
    also have "\<dots> = (case walk_tree src f c p (Dir st cs) s of
          (Some e, s1) \<Rightarrow> Some (Inl e, s1)
        | (None, s1) \<Rightarrow> walk_loop src f c q s1)"
      using walk_loop_dirs [of "sort_key fst cs" src f c p q "set (dirs s1)", OF IH] v Inr
      by simp
    finally show ?thesis .
  qed
qed

lemma walk_loop_Nil: "walk_loop src f c [] s = Some (Inr (result s), s)"
  by (subst walk_loop.simps) simp

lemma walk_tree_walk:
  assumes "holds src root t"
  shows "walk src root f c c0 =
           (case walk_tree src f c root t
                   \<lparr>result = [], addDirToResult = False, extraIgnoredFiles = {}, dirs = [],
                    consumer_state = c0, trace = []\<rparr> of
              (Some e, s1) \<Rightarrow> Some (Inl e, s1)
            | (None, s1) \<Rightarrow> Some (Inr (result s1), s1))"
  using walk_loop_tree [OF assms, of f c "[]"]
  by (simp add: walk_def walk_loop_Nil split: prod.splits option.splits)

subsection \<open>A walk without consumer\<close>

lemma holds_lstat: "holds src p t \<Longrightarrow> lstat src p = Inr (stats_of t)"
  by (cases t) auto

lemma insort_key_map:
  "insort_key (\<lambda>x. x) (f a) (map f ys) = map f (insort_key f a ys)"
  by (induction ys) auto

lemma sort_map_fst: "sort (map f xs) = map f (sort_key f xs)"
  by (induction xs) (auto simp add: insort_key_map)

lemma visit_child_plain:
  assumes "lstat src (p @ sep @ n) = Inr st" and "extraIgnoredFiles s = {}"
  shows "visit_child src f None p ns n s =
           (if \<not> passes f (p @ sep @ n) st
            then (Inr None, s\<lparr>trace := trace s @ [Skipped (p @ sep @ n)]\<rparr>)
            else if isDirectory st then (Inr None, s\<lparr>dirs := dirs s @ [n]\<rparr>)
            else (Inr (Some (p @ sep @ n)), s))"
  using assms
  by (auto simp add: visit_child_def classify_def passes_def Let_def split: option.splits)

lemma visit_children_plain:
  assumes "\<forall>(n, t) \<in> set X. lstat src (p @ sep @ n) = Inr (stats_of t)"
    and "extraIgnoredFiles s = {}"
  shows "visit_children src f None p ns (map fst X) s =
           (Inr (map (\<lambda>(n, t). if file_child f p (n, t) then Some (p @ sep @ n) else None) X),
            s\<lparr>dirs := dirs s @ map fst (filter (dir_child f p) X),
              trace := trace s @ map (\<lambda>(n, t). Skipped (p @ sep @ n))
                         (filter (\<lambda>(n, t). \<not> passes f (p @ sep @ n) (stats_of t)) X)\<rparr>)"
  using assms
proof (induction X arbitrary: s)
  case Nil
  then show ?case by simp
next
  case (Cons x X)
  obtain n t where x: "x = (n, t)" by (cases x)
  have l: "lstat src (p @ sep @ n) = Inr (stats_of t)" using Cons.prems x by simp
  have r: "\<forall>(n, t) \<in> set X. lstat src (p @ sep @ n) = Inr (stats_of t)"
    using Cons.prems by simp
  show ?case
  proof (cases "passes f (p @ sep @ n) (stats_of t)")
    case False
    then show ?thesis
      using x visit_child_plain [OF l Cons.prems(2), of f ns]
        Cons.IH [OF r, where s = "s\<lparr>trace := trace s @ [Skipped (p @ sep @ n)]\<rparr>"] Cons.prems(2)
      by (simp add: file_child_def dir_child_def)
  next
    case True
    show ?thesis
    proof (cases "isDirectory (stats_of t)")
      case d: True
      then show ?thesis
        using x True visit_child_plain [OF l Cons.prems(2), of f ns]
          Cons.IH [OF r, where s = "s\<lparr>dirs := dirs s @ [n]\<rparr>"] Cons.prems(2)
        by (simp add: file_child_def dir_child_def)
    next
      case d: False
      then show ?thesis
        using x True visit_child_plain [OF l Cons.prems(2), of f ns]
          Cons.IH [OF r, where s = s] Cons.prems(2)
        by (simp add: file_child_def dir_child_def)
    qed
  qed
qed

lemma map_filter_files:
  "List.map_filter id (map (\<lambda>(n, t). if P (n, t) then Some (g n) else None) X)
     = map (\<lambda>(n, t). g n) (filter P X)"
  by (induction X) (auto simp add: List.map_filter_simps)

definition plain_post :: "'c walk_state \<Rightarrow> 'c walk_state \<Rightarrow> path list \<Rightarrow> bool" where
  "plain_post s s1 added =
     (result s1 = result s @ added \<and> extraIgnoredFiles s1 = {} \<and> addDirToResult s1
        \<and> consumer_state s1 = consumer_state s)"

lemma foldl_plain:
  fixes s :: "'c walk_state"
  assumes step: "\<And>n t (s :: 'c walk_state). (n, t) \<in> set Y \<Longrightarrow> n \<in> D \<Longrightarrow> extraIgnoredFiles s = {}
           \<Longrightarrow> addDirToResult s \<Longrightarrow>
           \<exists>s1. walk_tree src f None (p @ sep @ n) t s = (None, s1)
              \<and> plain_post s s1 ((p @ sep @ n) # listing f (p @ sep @ n) t)"
    and "extraIgnoredFiles s = {}" and "addDirToResult s"
  shows "\<exists>s1. foldl (\<lambda>r (n, t).
                      case r of
                        (Some e, s2) \<Rightarrow> (Some e, s2)
                      | (None, s2) \<Rightarrow>
                          if n \<in> D
                          then walk_tree src f None (p @ sep @ n) t s2
                          else (None, s2)) (None, s) Y = (None, s1)
            \<and> plain_post s s1
                 (concat (map (\<lambda>(n, t). (p @ sep @ n) # listing f (p @ sep @ n) t)
                    (filter (\<lambda>(n, t). n \<in> D) Y)))"
  using assms
proof (induction Y arbitrary: s)
  case Nil
  then show ?case by (simp add: plain_post_def)
next
  case (Cons x Y)
  obtain n t where x: "x = (n, t)" by (cases x)
  show ?case
  proof (cases "n \<in> D")
    case False
    have "\<exists>s1. foldl (\<lambda>r (n, t).
                      case r of
                        (Some e, s2) \<Rightarrow> (Some e, s2)
                      | (None, s2) \<Rightarrow>
                          if n \<in> D
                          then walk_tree src f None (p @ sep @ n) t s2
                          else (None, s2)) (None, s) Y = (None, s1)
            \<and> plain_post s s1
                 (concat (map (\<lambda>(n, t). (p @ sep @ n) # listing f (p @ sep @ n) t)
                    (filter (\<lambda>(n, t). n \<in> D) Y)))"
      by (rule Cons.IH) (use Cons.prems in auto)
    then show ?thesis using x False by simp
  next
    case True
    obtain s1 where s1: "walk_tree src f None (p @ sep @ n) t s = (None, s1)"
      "plain_post s s1 ((p @ sep @ n) # listing f (p @ sep @ n) t)"
      using Cons.prems(1) [of n t s] x True Cons.prems(2,3) by auto
    have "\<exists>s2. foldl (\<lambda>r (n, t).
                      case r of
                        (Some e, s2) \<Rightarrow> (Some e, s2)
                      | (None, s2) \<Rightarrow>
                          if n \<in> D
                          then walk_tree src f None (p @ sep @ n) t s2
                          else (None, s2)) (None, s1) Y = (None, s2)
            \<and> plain_post s1 s2
                 (concat (map (\<lambda>(n, t). (p @ sep @ n) # listing f (p @ sep @ n) t)
                    (filter (\<lambda>(n, t). n \<in> D) Y)))"
      by (rule Cons.IH) (use Cons.prems s1 in \<open>auto simp add: plain_post_def\<close>)
    then show ?thesis using x True s1 by (auto simp add: plain_post_def)
  qed
qed

lemma walk_tree_plain:
  fixes s :: "'c walk_state"
  assumes "holds src p t" and "proper t" and "isDirectory (stats_of t)"
    and "extraIgnoredFiles s = {}"
  shows "\<exists>s1. walk_tree src f None p t s = (None, s1)
            \<and> plain_post s s1 ((if addDirToResult s then [p] else []) @ listing f p t)"
  using assms
proof (induction t arbitrary: p s)
  case (File st e)
  then show ?case by simp
next
  case (Dir st cs)
  let ?X = "sort_key fst cs"
  have dist: "distinct (map fst cs)" using Dir.prems by simp
  have sub: "\<And>n t. (n, t) \<in> set cs \<Longrightarrow> holds src (p @ sep @ n) t \<and> proper t"
    using Dir.prems by auto
  have ls: "\<forall>(n, t) \<in> set ?X. lstat src (p @ sep @ n) = Inr (stats_of t)"
    using sub holds_lstat by auto
  have e: "extraIgnoredFiles ((enter p s)\<lparr>dirs := []\<rparr>) = {}"
    using Dir.prems by (simp add: enter_def)
  note vc = visit_children_plain [OF ls e, of f "sort (map fst cs)"]
  let ?s1 = "(enter p s)\<lparr>dirs := map fst (filter (dir_child f p) ?X),
              trace := trace (enter p s) @ map (\<lambda>(n, t). Skipped (p @ sep @ n))
                         (filter (\<lambda>(n, t). \<not> passes f (p @ sep @ n) (stats_of t)) ?X)\<rparr>"
  let ?files = "map (\<lambda>(n, t). p @ sep @ n) (filter (file_child f p) ?X)"
  let ?s2 = "?s1\<lparr>result := result ?s1 @ ?files\<rparr>"
  let ?D = "set (dirs ?s1)"
  have step: "\<And>n t (s :: 'c walk_state). (n, t) \<in> set (rev ?X) \<Longrightarrow> n \<in> ?D \<Longrightarrow> extraIgnoredFiles s = {}
           \<Longrightarrow> addDirToResult s \<Longrightarrow>
           \<exists>s1. walk_tree src f None (p @ sep @ n) t s = (None, s1)
              \<and> plain_post s s1 ((p @ sep @ n) # listing f (p @ sep @ n) t)"
  proof -
    fix n t and s :: "'c walk_state"
    assume m: "(n, t) \<in> set (rev ?X)" and d: "n \<in> ?D"
      and i: "extraIgnoredFiles s = {}" and a: "addDirToResult s"
    have m': "(n, t) \<in> set cs" using m by simp
    from d obtain t' where "(n, t') \<in> set cs" "dir_child f p (n, t')" by auto
    then have "isDirectory (stats_of t)"
      using m' dist by (auto simp add: dir_child_def dest: eq_key_imp_eq_value)
    from Dir.IH [OF m' _ _ _ this i, of "p @ sep @ n"] sub [OF m'] a
    show "\<exists>s1. walk_tree src f None (p @ sep @ n) t s = (None, s1)
              \<and> plain_post s s1 ((p @ sep @ n) # listing f (p @ sep @ n) t)"
      by simp
  qed
  have i2: "extraIgnoredFiles ?s2 = {}" using Dir.prems by (simp add: enter_def)
  have a2: "addDirToResult ?s2" by (simp add: enter_def)
  from foldl_plain [of "rev ?X" ?D, OF step i2 a2]
  obtain s3 where s3: "foldl (\<lambda>r (n, t).
                      case r of
                        (Some e, s2) \<Rightarrow> (Some e, s2)
                      | (None, s2) \<Rightarrow>
                          if n \<in> ?D
                          then walk_tree src f None (p @ sep @ n) t s2
                          else (None, s2)) (None, ?s2) (rev ?X) = (None, s3)"
     and post: "plain_post ?s2 s3
                 (concat (map (\<lambda>(n, t). (p @ sep @ n) # listing f (p @ sep @ n) t)
                    (filter (\<lambda>(n, t). n \<in> ?D) (rev ?X))))"
    by blast
  have w: "walk_tree src f None p (Dir st cs) s = (None, s3)"
    using s3 vc by (simp add: sort_map_fst map_filter_files [of "file_child f p" "\<lambda>n. p @ sep @ n"])
  have flt: "filter (\<lambda>(n, t). n \<in> ?D) (rev ?X) = rev (filter (dir_child f p) ?X)"
  proof -
    have "\<And>n t. (n, t) \<in> set ?X \<Longrightarrow> (n \<in> ?D) = dir_child f p (n, t)"
    proof -
      fix n t assume "(n, t) \<in> set ?X"
      then have m: "(n, t) \<in> set cs" by simp
      show "(n \<in> ?D) = dir_child f p (n, t)"
      proof
        assume "n \<in> ?D"
        then obtain t' where "(n, t') \<in> set cs" "dir_child f p (n, t')" by auto
        then show "dir_child f p (n, t)" using m dist by (auto dest: eq_key_imp_eq_value)
      next
        assume "dir_child f p (n, t)"
        then show "n \<in> ?D" using m by force
      qed
    qed
    then have "filter (\<lambda>(n, t). n \<in> ?D) (rev ?X) = filter (dir_child f p) (rev ?X)"
      by (intro filter_cong) auto
    then show ?thesis by (simp only: rev_filter)
  qed
  have "plain_post s s3 ((if addDirToResult s then [p] else []) @ listing f p (Dir st cs))"
    using post flt Dir.prems(4)
    by (auto simp add: plain_post_def enter_def file_child_def dir_child_def)
  then show ?case using w by blast
qed

lemma walk_plain:
  fixes c0 :: 'c
  assumes "holds src root t" and "proper t" and "isDirectory (stats_of t)"
  shows "map_option fst (walk src root f (None :: 'c consumer option) c0)
           = Some (Inr (listing f root t))"
proof -
  let ?s = "\<lparr>result = [], addDirToResult = False, extraIgnoredFiles = {}, dirs = [],
             consumer_state = c0, trace = []\<rparr>"
  obtain s1 where "walk_tree src f None root t ?s = (None, s1)"
    and "plain_post ?s s1 ((if addDirToResult ?s then [root] else []) @ listing f root t)"
    using walk_tree_plain [OF assms, of ?s f] by auto
  then show ?thesis
    using walk_tree_walk [OF assms(1), of f None c0] by (simp add: plain_post_def)
qed

lemma example_holds: "holds example_disk ''root'' example_tree"
  by (simp add: example_disk_def example_tree_def sep_def)

lemma example_proper: "proper example_tree \<and> isDirectory (stats_of example_tree)"
  by (simp add: example_tree_def dir_stats_def file_stats_def isDirectory_def)

lemma example_listing:
  "listing (Some (\<lambda>p st. p \<noteq> ''root/z.txt'')) ''root'' example_tree
     = [''root/a.txt'', ''root/b'', ''root/b/c.txt'']"
  by (simp add: example_tree_def sep_def passes_def file_child_def dir_child_def dir_stats_def
        file_stats_def isDirectory_def)


lemma entries_longer: "x \<in> entries p t \<Longrightarrow> length p < length x"
proof (induction t arbitrary: p x)
  case (File st e)
  then show ?case by simp
next
  case (Dir st cs)
  then obtain n t where m: "(n, t) \<in> set cs"
    and x: "x = p @ sep @ n \<or> x \<in> entries (p @ sep @ n) t" by auto
  have "t \<in> Basic_BNFs.snds (n, t)" by simp
  from x Dir.IH [OF m this, of x "p @ sep @ n"] show ?case
    by (auto simp add: sep_def)
qed

lemma listing_entries: "set (listing f p t) \<subseteq> entries p t"
proof (induction t arbitrary: p)
  case (File st e)
  then show ?case by simp
next
  case (Dir st cs)
  have "\<And>n t. (n, t) \<in> set cs \<Longrightarrow> set (listing f (p @ sep @ n) t) \<subseteq> entries (p @ sep @ n) t"
  proof -
    fix n t assume m: "(n, t) \<in> set cs"
    have "t \<in> Basic_BNFs.snds (n, t)" by simp
    from Dir.IH [OF m this] show "set (listing f (p @ sep @ n) t) \<subseteq> entries (p @ sep @ n) t" .
  qed
  then show ?case by fastforce
qed

lemma entries_listing:
  "proper t \<Longrightarrow> entries p t \<subseteq> set (listing None p t)"
proof (induction t arbitrary: p)
  case (File st e)
  then show ?case by simp
next
  case (Dir st cs)
  show ?case
  proof
    fix x assume "x \<in> entries p (Dir st cs)"
    then obtain n t where m: "(n, t) \<in> set cs"
      and x: "x = p @ sep @ n \<or> x \<in> entries (p @ sep @ n) t" by auto
    have pr: "proper t" using Dir.prems m by auto
    have "t \<in> Basic_BNFs.snds (n, t)" by simp
    from Dir.IH [OF m this pr] have ih: "entries (p @ sep @ n) t \<subseteq> set (listing None (p @ sep @ n) t)" .
    show "x \<in> set (listing None p (Dir st cs))"
    proof (cases "isDirectory (stats_of t)")
      case True
      then have "(n, t) \<in> set (filter (dir_child None p) (sort_key fst cs))"
        using m by (simp add: passes_def dir_child_def)
      then show ?thesis using x ih by fastforce
    next
      case False
      then have "entries (p @ sep @ n) t = {}" using pr by (cases t) auto
      moreover have "(n, t) \<in> set (filter (file_child None p) (sort_key fst cs))"
        using m False by (simp add: passes_def file_child_def)
      ultimately show ?thesis using x by fastforce
    qed
  qed
qed

lemma sorted_filter_fst: "sorted (map fst (filter P (sort_key fst cs)))"
  using sorted_filter [of fst "sort_key fst cs" P] by simp

lemma two_dirs_holds: "holds two_dirs_disk ''root'' (Dir dir_stats two_dirs_children)"
  by (simp add: two_dirs_disk_def two_dirs_children_def sep_def)

lemma two_dirs_proper: "proper (Dir dir_stats two_dirs_children)"
  by (simp add: two_dirs_children_def dir_stats_def file_stats_def isDirectory_def)

lemma two_dirs_listing:
  "listing None ''root'' (Dir dir_stats two_dirs_children)
     = [''root/b'', ''root/b/y'', ''root/a'', ''root/a/x'']"
  by (simp add: two_dirs_children_def sep_def passes_def file_child_def dir_child_def
        dir_stats_def file_stats_def isDirectory_def)

subsection \<open>What a walk skips\<close>









lemma classify_sets:
  assumes "classify name fp st s = (r, s1)"
  shows "result s1 = result s \<and> addDirToResult s1 = addDirToResult s
     \<and> skipped_of s1 = skipped_of s \<and> touched_of s1 = touched_of s
     \<and> (dirs s1 = dirs s \<or> dirs s1 = dirs s @ [name])
     \<and> (\<forall>x. r = Inr (Some x) \<longrightarrow> x = fp)"
  using assms
  by (auto simp add: classify_def skipped_of_def touched_of_def split: if_splits)

lemma kept_classify:
  assumes "result s' = result s" and "addDirToResult s' = addDirToResult s"
    and "skipped_of s' = skipped_of s"
    and "touched_of s' = touched_of s \<or> touched_of s' = touched_of s \<union> {p @ sep @ n}"
    and "dirs s' = dirs s"
  shows "kept p n s (classify n (p @ sep @ n) st s')"
proof -
  obtain r s1 where c: "classify n (p @ sep @ n) st s' = (r, s1)"
    by (cases "classify n (p @ sep @ n) st s'")
  from classify_sets [OF c] assms show ?thesis
    unfolding kept_def c by auto
qed

lemma visit_child_sets:
  fixes s :: "'c walk_state"
  shows "(\<exists>st. lstat src (p @ sep @ n) = Inr st
            \<and> (p @ sep @ n \<in> extraIgnoredFiles s \<or> \<not> passes f (p @ sep @ n) st)
            \<and> visit_child src f c p ns n s
                = (Inr None, s\<lparr>trace := trace s @ [Skipped (p @ sep @ n)]\<rparr>))
       \<or> kept p n s (visit_child src f c p ns n s)"
proof (cases "lstat src (p @ sep @ n)")
  case (Inl e)
  then show ?thesis by (simp add: visit_child_def kept_def)
next
  case (Inr st)
  show ?thesis
  proof (cases "p @ sep @ n \<in> extraIgnoredFiles s \<or> \<not> passes f (p @ sep @ n) st")
    case True
    then have "visit_child src f c p ns n s
                = (Inr None, s\<lparr>trace := trace s @ [Skipped (p @ sep @ n)]\<rparr>)"
      using Inr by (auto simp add: visit_child_def passes_def split: option.splits)
    then show ?thesis using Inr True by blast
  next
    case False
    then have nf: "(p @ sep @ n \<in> extraIgnoredFiles s
                     \<or> (case f of None \<Rightarrow> False | Some g \<Rightarrow> \<not> g (p @ sep @ n) st)) = False"
      by (auto simp add: passes_def split: option.splits)
    show ?thesis
    proof (cases c)
      case None
      have "visit_child src f c p ns n s = classify n (p @ sep @ n) st s"
        using Inr None nf by (simp add: visit_child_def)
      then show ?thesis using kept_classify [of s s p n st] by simp
    next
      case (Some cf)
      obtain cr ign1 c1 where
        call: "cf (p @ sep @ n) st p (extraIgnoredFiles s) ns (consumer_state s) = (cr, ign1, c1)"
        by (cases "cf (p @ sep @ n) st p (extraIgnoredFiles s) ns (consumer_state s)")
      let ?s' = "s\<lparr>extraIgnoredFiles := ign1, consumer_state := c1,
                   trace := trace s @ [Consumed (p @ sep @ n)]\<rparr>"
      have s': "result ?s' = result s" "addDirToResult ?s' = addDirToResult s"
        "skipped_of ?s' = skipped_of s"
        "touched_of ?s' = touched_of s \<or> touched_of ?s' = touched_of s \<union> {p @ sep @ n}"
        "dirs ?s' = dirs s"
        by (auto simp add: skipped_of_def touched_of_def)
      have v: "visit_child src f c p ns n s =
                 (case cr of
                    NotThenable \<Rightarrow> classify n (p @ sep @ n) st ?s'
                  | Thenable (Inl e) \<Rightarrow> (Inl e, ?s')
                  | Thenable (Inr it) \<Rightarrow>
                      classify n (p @ sep @ n) (case it of Some st' \<Rightarrow> st' | None \<Rightarrow> st) ?s')"
        using Inr Some nf call by (simp add: visit_child_def Let_def)
      show ?thesis
      proof (cases cr)
        case NotThenable
        then show ?thesis using v kept_classify [OF s', of st] by simp
      next
        case (Thenable pr)
        show ?thesis
        proof (cases pr)
          case (Inl e)
          then show ?thesis using v Thenable s' by (simp add: kept_def)
        next
          case (Inr it)
          then show ?thesis
            using v Thenable
              kept_classify [OF s', of "case it of Some st' \<Rightarrow> st' | None \<Rightarrow> st"]
            by simp
        qed
      qed
    qed
  qed
qed

lemma step_postE:
  assumes "step_post p N s s1 F"
  obtains SK TD T ds where "SK \<subseteq> N" "TD \<subseteq> N" "SK \<inter> TD = {}"
       "skipped_of s1 = skipped_of s \<union> (\<lambda>n. p @ sep @ n) ` SK"
       "touched_of s1 = touched_of s \<union> T" "T \<subseteq> (\<lambda>n. p @ sep @ n) ` TD"
       "dirs s1 = dirs s @ ds" "set ds \<subseteq> TD" "F \<subseteq> (\<lambda>n. p @ sep @ n) ` TD"
       "result s1 = result s" "addDirToResult s1 = addDirToResult s"
proof -
  from assms [unfolded step_post_def] obtain SK TD T ds where
    "SK \<subseteq> N \<and> TD \<subseteq> N \<and> SK \<inter> TD = {}
        \<and> skipped_of s1 = skipped_of s \<union> (\<lambda>n. p @ sep @ n) ` SK
        \<and> touched_of s1 = touched_of s \<union> T \<and> T \<subseteq> (\<lambda>n. p @ sep @ n) ` TD
        \<and> dirs s1 = dirs s @ ds \<and> set ds \<subseteq> TD
        \<and> F \<subseteq> (\<lambda>n. p @ sep @ n) ` TD
        \<and> result s1 = result s \<and> addDirToResult s1 = addDirToResult s"
    by (elim exE) (erule that)
  then show thesis by (intro that [of SK TD T ds]) simp_all
qed

lemma step_postI:
  assumes "SK \<subseteq> N" "TD \<subseteq> N" "SK \<inter> TD = {}"
       "skipped_of s1 = skipped_of s \<union> (\<lambda>n. p @ sep @ n) ` SK"
       "touched_of s1 = touched_of s \<union> T" "T \<subseteq> (\<lambda>n. p @ sep @ n) ` TD"
       "dirs s1 = dirs s @ ds" "set ds \<subseteq> TD" "F \<subseteq> (\<lambda>n. p @ sep @ n) ` TD"
       "result s1 = result s" "addDirToResult s1 = addDirToResult s"
  shows "step_post p N s s1 F"
  unfolding step_post_def
  by (intro exI [of _ SK] exI [of _ TD] exI [of _ T] exI [of _ ds] conjI assms)





lemma visit_child_post:
  fixes s :: "'c walk_state"
  assumes "visit_child src f c p ns n s = (r, s1)"
  shows "step_post p {n} s s1 {x. r = Inr (Some x)}"
proof -
  from visit_child_sets [of src p n s f c ns]
  consider (skip) "visit_child src f c p ns n s
                = (Inr None, s\<lparr>trace := trace s @ [Skipped (p @ sep @ n)]\<rparr>)"
    | (keep) "kept p n s (visit_child src f c p ns n s)"
    by blast
  then show ?thesis
  proof cases
    case skip
    then have r: "r = Inr None" and s1: "s1 = s\<lparr>trace := trace s @ [Skipped (p @ sep @ n)]\<rparr>"
      using assms by simp_all
    show ?thesis
      by (rule step_postI [of "{n}" _ "{}" _ _ _ "{}" "[]"])
         (use r s1 in \<open>auto simp add: skipped_of_def touched_of_def\<close>)
  next
    case keep
    then have k: "result s1 = result s" "addDirToResult s1 = addDirToResult s"
        "skipped_of s1 = skipped_of s"
        "touched_of s1 = touched_of s \<or> touched_of s1 = touched_of s \<union> {p @ sep @ n}"
        "dirs s1 = dirs s \<or> dirs s1 = dirs s @ [n]"
        "\<forall>x. r = Inr (Some x) \<longrightarrow> x = p @ sep @ n"
      using assms by (simp_all add: kept_def)
    let ?T = "if touched_of s1 = touched_of s then {} else {p @ sep @ n}"
    let ?ds = "if dirs s1 = dirs s then [] else [n]"
    show ?thesis
    proof (rule step_postI [of "{}" _ "{n}" _ _ _ ?T ?ds])
      show "touched_of s1 = touched_of s \<union> ?T" using k(4) by auto
      show "dirs s1 = dirs s @ ?ds" using k(5) by auto
      show "{x. r = Inr (Some x)} \<subseteq> (\<lambda>n. p @ sep @ n) ` {n}" using k(6) by auto
    qed (use k in auto)
  qed
qed




















subsection \<open>The list that a walk returns\<close>

lemma visit_child_file:
  fixes s :: "'c walk_state"
  assumes "visit_child src f c p ns n s = (r, s1)"
  shows "result s1 = result s \<and> addDirToResult s1 = addDirToResult s
           \<and> (\<forall>x. r = Inr (Some x) \<longrightarrow> x = p @ sep @ n)"
proof -
  from visit_child_post [OF assms] obtain SK TD T ds where
    a: "TD \<subseteq> {n}" "{x. r = Inr (Some x)} \<subseteq> (\<lambda>n. p @ sep @ n) ` TD"
       "result s1 = result s" "addDirToResult s1 = addDirToResult s"
    by (rule step_postE)
  from a(1,2) have "\<forall>x. r = Inr (Some x) \<longrightarrow> x = p @ sep @ n" by auto
  then show ?thesis using a(3,4) by simp
qed

lemma visit_children_files:
  fixes s :: "'c walk_state"
  assumes "visit_children src f c p ns names s = (Inr fps, s1)"
  shows "\<exists>fs. List.map_filter id fps = map (\<lambda>n. p @ sep @ n) fs \<and> set fs \<subseteq> set names
            \<and> (sorted names \<longrightarrow> sorted fs)
            \<and> result s1 = result s \<and> addDirToResult s1 = addDirToResult s"
  using assms
proof (induction names arbitrary: s fps s1)
  case Nil
  then have "fps = []" "s1 = s" by auto
  then have "List.map_filter id fps = map (\<lambda>n. p @ sep @ n) [] \<and> set [] \<subseteq> set ([] :: string list)
            \<and> (sorted ([] :: string list) \<longrightarrow> sorted ([] :: string list))
            \<and> result s1 = result s \<and> addDirToResult s1 = addDirToResult s"
    by (simp add: List.map_filter_simps)
  then show ?case by blast
next
  case (Cons n names)
  obtain r0 s0 where v: "visit_child src f c p ns n s = (r0, s0)"
    by (cases "visit_child src f c p ns n s")
  note f0 = visit_child_file [OF v]
  obtain child where r0: "r0 = Inr child"
    using Cons.prems v by (cases r0) auto
  obtain r2 s2 where w: "visit_children src f c p ns names s0 = (r2, s2)"
    by (cases "visit_children src f c p ns names s0")
  obtain children where r2: "r2 = Inr children"
    using Cons.prems v r0 w by (cases r2) auto
  have eq: "fps = child # children" "s1 = s2" using Cons.prems v r0 w r2 by auto
  from Cons.IH [OF w [unfolded r2]] obtain fs where
    fs: "List.map_filter id children = map (\<lambda>n. p @ sep @ n) fs" "set fs \<subseteq> set names"
        "sorted names \<longrightarrow> sorted fs" "result s2 = result s0"
        "addDirToResult s2 = addDirToResult s0"
    by blast
  show ?case
  proof (cases child)
    case None
    have "List.map_filter id fps = map (\<lambda>n. p @ sep @ n) fs \<and> set fs \<subseteq> set (n # names)
            \<and> (sorted (n # names) \<longrightarrow> sorted fs)
            \<and> result s1 = result s \<and> addDirToResult s1 = addDirToResult s"
      using eq None fs f0 by (auto simp add: List.map_filter_simps)
    then show ?thesis by blast
  next
    case (Some x)
    then have x: "x = p @ sep @ n" using f0 r0 by simp
    have "List.map_filter id fps = map (\<lambda>n. p @ sep @ n) (n # fs)
            \<and> set (n # fs) \<subseteq> set (n # names)
            \<and> (sorted (n # names) \<longrightarrow> sorted (n # fs))
            \<and> result s1 = result s \<and> addDirToResult s1 = addDirToResult s"
      using eq Some x fs f0 by (auto simp add: List.map_filter_simps)
    then show ?thesis by blast
  qed
qed

lemma foldl_shaped:
  fixes s :: "'c walk_state"
  assumes IH: "\<And>n t (s :: 'c walk_state) s1. (n, t) \<in> set Y \<Longrightarrow> addDirToResult s \<Longrightarrow>
                 walk_tree src f c (p @ sep @ n) t s = (None, s1) \<Longrightarrow>
                 \<exists>R. result s1 = result s @ (p @ sep @ n) # R \<and> shaped (p @ sep @ n) t R
                    \<and> addDirToResult s1"
    and "distinct (map fst Y)" and "addDirToResult s"
    and "foldl (\<lambda>r (n, t).
                      case r of
                        (Some e, s2) \<Rightarrow> (Some e, s2)
                      | (None, s2) \<Rightarrow>
                          if n \<in> D
                          then walk_tree src f c (p @ sep @ n) t s2
                          else (None, s2)) (None, s) Y = (None, s')"
  shows "\<exists>R. result s' = result s
                  @ concat (map (\<lambda>d. (p @ sep @ d) # R d) (filter (\<lambda>n. n \<in> D) (map fst Y)))
            \<and> (\<forall>(n, t) \<in> set Y. n \<in> D \<longrightarrow> shaped (p @ sep @ n) t (R n))
            \<and> addDirToResult s'"
  using assms
proof (induction Y arbitrary: s)
  case Nil
  then show ?case by simp
next
  case (Cons x Y)
  obtain n t where x: "x = (n, t)" by (cases x)
  let ?step = "\<lambda>r (n, t).
                      case r of
                        (Some e, s2) \<Rightarrow> (Some e, s2)
                      | (None, s2) \<Rightarrow>
                          if n \<in> D
                          then walk_tree src f c (p @ sep @ n) t s2
                          else (None, s2)"
  have dY: "distinct (map fst Y)" and nY: "n \<notin> fst ` set Y" using Cons.prems(2) x by auto
  have ih: "\<And>s0 :: 'c walk_state. addDirToResult s0 \<Longrightarrow> foldl ?step (None, s0) Y = (None, s') \<Longrightarrow>
      \<exists>R. result s' = result s0
                  @ concat (map (\<lambda>d. (p @ sep @ d) # R d) (filter (\<lambda>n. n \<in> D) (map fst Y)))
            \<and> (\<forall>(n, t) \<in> set Y. n \<in> D \<longrightarrow> shaped (p @ sep @ n) t (R n))
            \<and> addDirToResult s'"
  proof -
    fix s0 :: "'c walk_state"
    assume "addDirToResult s0" "foldl ?step (None, s0) Y = (None, s')"
    then show "\<exists>R. result s' = result s0
                  @ concat (map (\<lambda>d. (p @ sep @ d) # R d) (filter (\<lambda>n. n \<in> D) (map fst Y)))
            \<and> (\<forall>(n, t) \<in> set Y. n \<in> D \<longrightarrow> shaped (p @ sep @ n) t (R n))
            \<and> addDirToResult s'"
      using Cons.prems(1) dY by (intro Cons.IH) auto
  qed
  show ?case
  proof (cases "n \<in> D")
    case False
    have "foldl ?step (None, s) Y = (None, s')" using Cons.prems(4) x False by simp
    from ih [OF Cons.prems(3) this] obtain R where
      R: "result s' = result s
                  @ concat (map (\<lambda>d. (p @ sep @ d) # R d) (filter (\<lambda>n. n \<in> D) (map fst Y)))"
         "\<forall>(n, t) \<in> set Y. n \<in> D \<longrightarrow> shaped (p @ sep @ n) t (R n)" "addDirToResult s'"
      by blast
    have "result s' = result s
                  @ concat (map (\<lambda>d. (p @ sep @ d) # R d) (filter (\<lambda>n. n \<in> D) (map fst (x # Y))))
            \<and> (\<forall>(n, t) \<in> set (x # Y). n \<in> D \<longrightarrow> shaped (p @ sep @ n) t (R n))
            \<and> addDirToResult s'"
      using R x False by simp
    then show ?thesis by blast
  next
    case True
    obtain r1 s1 where w: "walk_tree src f c (p @ sep @ n) t s = (r1, s1)"
      by (cases "walk_tree src f c (p @ sep @ n) t s")
    have fo: "foldl ?step (r1, s1) Y = (None, s')" using Cons.prems(4) x True w by simp
    have r1: "r1 = None"
    proof (cases r1)
      case (Some e)
      then show ?thesis using fo by (simp add: foldl_error)
    qed simp
    from Cons.prems(1) [of n t s s1] x Cons.prems(3) w r1 obtain R1 where
      R1: "result s1 = result s @ (p @ sep @ n) # R1" "shaped (p @ sep @ n) t R1"
          "addDirToResult s1"
      by auto
    from ih [OF R1(3)] fo r1 obtain R where
      R: "result s' = result s1
                  @ concat (map (\<lambda>d. (p @ sep @ d) # R d) (filter (\<lambda>n. n \<in> D) (map fst Y)))"
         "\<forall>(n, t) \<in> set Y. n \<in> D \<longrightarrow> shaped (p @ sep @ n) t (R n)" "addDirToResult s'"
      by blast
    let ?R = "R(n := R1)"
    have same: "map (\<lambda>d. (p @ sep @ d) # ?R d) (filter (\<lambda>n. n \<in> D) (map fst Y))
                  = map (\<lambda>d. (p @ sep @ d) # R d) (filter (\<lambda>n. n \<in> D) (map fst Y))"
      using nY by (intro map_cong) auto
    have a1: "filter (\<lambda>n. n \<in> D) (map fst (x # Y)) = n # filter (\<lambda>n. n \<in> D) (map fst Y)"
      using x True by simp
    have "concat (map (\<lambda>d. (p @ sep @ d) # ?R d) (filter (\<lambda>n. n \<in> D) (map fst (x # Y))))
            = ((p @ sep @ n) # R1)
              @ concat (map (\<lambda>d. (p @ sep @ d) # ?R d) (filter (\<lambda>n. n \<in> D) (map fst Y)))"
      unfolding a1 by simp
    also have "\<dots> = ((p @ sep @ n) # R1)
              @ concat (map (\<lambda>d. (p @ sep @ d) # R d) (filter (\<lambda>n. n \<in> D) (map fst Y)))"
      unfolding same ..
    finally have a: "result s' = result s
                  @ concat (map (\<lambda>d. (p @ sep @ d) # ?R d)
                       (filter (\<lambda>n. n \<in> D) (map fst (x # Y))))"
      using R(1) R1(1) by simp
    have b: "\<forall>(m, t) \<in> set (x # Y). m \<in> D \<longrightarrow> shaped (p @ sep @ m) t (?R m)"
      using R(2) R1(2) x nY by (auto simp add: rev_image_eqI)
    show ?thesis using a b R(3) by blast
  qed
qed

lemma enter_result:
  "result (enter p s) = result s @ (if addDirToResult s then [p] else [])"
  "addDirToResult (enter p s)"
  by (simp_all add: enter_def)

lemma walk_tree_shaped:
  fixes s :: "'c walk_state"
  assumes "holds src p t" and "walk_tree src f c p t s = (None, s1)"
  shows "\<exists>R. result s1 = result s @ (if addDirToResult s then [p] else []) @ R
            \<and> shaped p t R \<and> addDirToResult s1"
  using assms
proof (induction t arbitrary: p s s1)
  case (File st e)
  then show ?case by simp
next
  case (Dir st cs)
  let ?names = "sort (map fst cs)"
  let ?s0 = "(enter p s)\<lparr>dirs := []\<rparr>"
  let ?X = "sort_key fst cs"
  have dist: "distinct (map fst cs)" using Dir.prems(1) by simp
  obtain r s2 where vc: "visit_children src f c p ?names ?names ?s0 = (r, s2)"
    by (cases "visit_children src f c p ?names ?names ?s0")
  obtain fps where r: "r = Inr fps"
    using Dir.prems(2) vc by (cases r) auto
  from visit_children_files [OF vc [unfolded r]] obtain fs where
    fs: "List.map_filter id fps = map (\<lambda>n. p @ sep @ n) fs" "set fs \<subseteq> set ?names"
        "sorted fs" "result s2 = result ?s0" "addDirToResult s2 = addDirToResult ?s0"
    by auto
  from visit_children_dirs [OF vc] obtain ds where
    ds: "dirs s2 = ds" "set ds \<subseteq> set ?names" "distinct ds"
    using dist by auto
  let ?D = "set (dirs s2)"
  let ?s3 = "s2\<lparr>result := result s2 @ List.map_filter id fps\<rparr>"
  let ?step = "\<lambda>r (n, t).
                      case r of
                        (Some e, s2) \<Rightarrow> (Some e, s2)
                      | (None, s2) \<Rightarrow>
                          if n \<in> ?D
                          then walk_tree src f c (p @ sep @ n) t s2
                          else (None, s2)"
  have fo: "foldl ?step (None, ?s3) (rev ?X) = (None, s1)"
    using Dir.prems(2) vc r by simp
  have IH: "\<And>n t (s :: 'c walk_state) s1. (n, t) \<in> set (rev ?X) \<Longrightarrow> addDirToResult s \<Longrightarrow>
                 walk_tree src f c (p @ sep @ n) t s = (None, s1) \<Longrightarrow>
                 \<exists>R. result s1 = result s @ (p @ sep @ n) # R \<and> shaped (p @ sep @ n) t R
                    \<and> addDirToResult s1"
  proof -
    fix n t and s s1 :: "'c walk_state"
    assume "(n, t) \<in> set (rev ?X)" and a: "addDirToResult s"
      and w: "walk_tree src f c (p @ sep @ n) t s = (None, s1)"
    then have m: "(n, t) \<in> set cs" by simp
    have h: "holds src (p @ sep @ n) t" using Dir.prems(1) m by auto
    have "t \<in> Basic_BNFs.snds (n, t)" by simp
    from Dir.IH [OF m this h w] a
    show "\<exists>R. result s1 = result s @ (p @ sep @ n) # R \<and> shaped (p @ sep @ n) t R
                    \<and> addDirToResult s1"
      by simp
  qed
  have dY: "distinct (map fst (rev ?X))"
    using dist by (simp add: rev_map [symmetric] sort_map_fst [symmetric])
  have a3: "addDirToResult ?s3" using fs(5) by (simp add: enter_result)
  from foldl_shaped [OF IH dY a3 fo] obtain R where
    R: "result s1 = result ?s3
          @ concat (map (\<lambda>d. (p @ sep @ d) # R d) (filter (\<lambda>n. n \<in> ?D) (map fst (rev ?X))))"
       "\<forall>(n, t) \<in> set (rev ?X). n \<in> ?D \<longrightarrow> shaped (p @ sep @ n) t (R n)"
       "addDirToResult s1"
    by blast
  have sub: "set (dirs s2) \<subseteq> fst ` set cs" using ds by auto
  have "filter (\<lambda>n. n \<in> ?D) (map fst (rev ?X)) = rev (filter (\<lambda>n. n \<in> ?D) (map fst ?X))"
    by (simp add: rev_map rev_filter)
  also have "\<dots> = rev (sort (dirs s2))"
    using sorted_dirs_filter [OF dist _ sub] ds by simp
  finally have flt: "filter (\<lambda>n. n \<in> ?D) (map fst (rev ?X)) = rev (sort (dirs s2))" .
  have sh: "shaped p (Dir st cs)
       (map (\<lambda>n. p @ sep @ n) fs
        @ concat (map (\<lambda>d. (p @ sep @ d) # R d) (rev (sort (dirs s2)))))"
  proof (rule shaped_Dir)
    show "sorted fs" by (rule fs(3))
    show "set fs \<subseteq> fst ` set cs" using fs(2) by auto
    show "sorted (sort (dirs s2))" by simp
    show "distinct (sort (dirs s2))" using ds by simp
    show "set (sort (dirs s2)) \<subseteq> fst ` set cs" using sub by simp
    show "\<forall>d \<in> set (sort (dirs s2)). \<exists>t. (d, t) \<in> set cs \<and> shaped (p @ sep @ d) t (R d)"
    proof
      fix d assume d: "d \<in> set (sort (dirs s2))"
      then obtain t where t: "(d, t) \<in> set cs" using sub by auto
      then have "shaped (p @ sep @ d) t (R d)" using R(2) d by auto
      then show "\<exists>t. (d, t) \<in> set cs \<and> shaped (p @ sep @ d) t (R d)" using t by blast
    qed
  qed
  have "result s1 = result s @ (if addDirToResult s then [p] else [])
          @ (map (\<lambda>n. p @ sep @ n) fs
             @ concat (map (\<lambda>d. (p @ sep @ d) # R d) (rev (sort (dirs s2)))))"
    using R(1) flt fs(1,4) by (simp add: enter_result)
  then show ?case using sh R(3) by blast
qed

lemma walk_shaped:
  fixes c0 :: 'c
  assumes "holds src root t"
  shows "\<exists>r s. walk src root f c c0 = Some (r, s) \<and> (\<forall>xs. r = Inr xs \<longrightarrow> shaped root t xs)"
proof -
  let ?s0 = "\<lparr>result = [], addDirToResult = False, extraIgnoredFiles = {}, dirs = [],
              consumer_state = c0, trace = []\<rparr>"
  obtain e1 s1 where wt: "walk_tree src f c root t ?s0 = (e1, s1)"
    by (cases "walk_tree src f c root t ?s0")
  show ?thesis
  proof (cases e1)
    case (Some e)
    then have "walk src root f c c0 = Some (Inl e, s1)"
      using walk_tree_walk [OF assms, of f c c0] wt by simp
    then show ?thesis by simp
  next
    case None
    then have w: "walk src root f c c0 = Some (Inr (result s1), s1)"
      using walk_tree_walk [OF assms, of f c c0] wt by simp
    from walk_tree_shaped [OF assms wt [unfolded None]] have "shaped root t (result s1)"
      by simp
    then show ?thesis using w by simp
  qed
qed

lemma shaped_entries: "shaped p t R \<Longrightarrow> set R \<subseteq> entries p t"
proof (induction rule: shaped.induct)
  case (shaped_Dir fs cs ds p R st)
  have a: "set (map (\<lambda>n. p @ sep @ n) fs) \<subseteq> entries p (Dir st cs)"
    using shaped_Dir(2) by fastforce
  have b: "\<And>d. d \<in> set ds \<Longrightarrow> set ((p @ sep @ d) # R d) \<subseteq> entries p (Dir st cs)"
  proof -
    fix d assume "d \<in> set ds"
    then obtain t where "(d, t) \<in> set cs" "set (R d) \<subseteq> entries (p @ sep @ d) t"
      using shaped_Dir(6) by blast
    then show "set ((p @ sep @ d) # R d) \<subseteq> entries p (Dir st cs)" by fastforce
  qed
  have c: "set (concat (map (\<lambda>d. (p @ sep @ d) # R d) (rev ds))) \<subseteq> entries p (Dir st cs)"
  proof
    fix x assume "x \<in> set (concat (map (\<lambda>d. (p @ sep @ d) # R d) (rev ds)))"
    then obtain d where "d \<in> set ds" "x \<in> set ((p @ sep @ d) # R d)" by auto
    then show "x \<in> entries p (Dir st cs)" using b by blast
  qed
  have "set (map (\<lambda>n. p @ sep @ n) fs @ concat (map (\<lambda>d. (p @ sep @ d) # R d) (rev ds)))
          = set (map (\<lambda>n. p @ sep @ n) fs)
            \<union> set (concat (map (\<lambda>d. (p @ sep @ d) # R d) (rev ds)))"
    by (rule set_append)
  then show ?case using a c by blast
qed

text \<open>
  Claim C1, as the code has it. For every directory tree, whatever the filter and the
  consumer, the walk ends, and the list it returns never contains the root directory and
  contains only paths of entries below it. These are files, symbolic links and also the
  subdirectories walked: without filter and consumer the list holds the path of every
  entry below the root, the directories among them.
\<close>

theorem walk_lists_entries:
  fixes c0 :: 'c
  assumes "holds src root t"
  shows "(\<exists>r s. walk src root f c c0 = Some (r, s)
            \<and> (\<forall>xs. r = Inr xs \<longrightarrow> root \<notin> set xs \<and> set xs \<subseteq> entries root t))
       \<and> (proper t \<and> isDirectory (stats_of t) \<longrightarrow>
            (\<exists>xs. map_option fst (walk src root None (None :: 'c consumer option) c0)
                     = Some (Inr xs)
               \<and> set xs = entries root t))"
proof -
  from walk_shaped [OF assms, of f c c0] obtain r s where
    w: "walk src root f c c0 = Some (r, s)" "\<forall>xs. r = Inr xs \<longrightarrow> shaped root t xs"
    by blast
  have "\<forall>xs. r = Inr xs \<longrightarrow> root \<notin> set xs \<and> set xs \<subseteq> entries root t"
  proof (intro allI impI)
    fix xs assume "r = Inr xs"
    then have "shaped root t xs" using w(2) by simp
    then have sub: "set xs \<subseteq> entries root t" by (rule shaped_entries)
    have "root \<notin> entries root t" using entries_longer [of root root t] by auto
    then show "root \<notin> set xs \<and> set xs \<subseteq> entries root t" using sub by auto
  qed
  then have "walk src root f c c0 = Some (r, s)
            \<and> (\<forall>xs. r = Inr xs \<longrightarrow> root \<notin> set xs \<and> set xs \<subseteq> entries root t)"
    using w(1) by simp
  then have a: "\<exists>r s. walk src root f c c0 = Some (r, s)
            \<and> (\<forall>xs. r = Inr xs \<longrightarrow> root \<notin> set xs \<and> set xs \<subseteq> entries root t)"
    by (intro exI)
  have b: "proper t \<and> isDirectory (stats_of t) \<longrightarrow>
            (\<exists>xs. map_option fst (walk src root None (None :: 'c consumer option) c0)
                     = Some (Inr xs)
               \<and> set xs = entries root t)"
  proof
    assume p: "proper t \<and> isDirectory (stats_of t)"
    then have p1: "proper t" and p2: "isDirectory (stats_of t)" by simp_all
    have "map_option fst (walk src root None (None :: 'c consumer option) c0)
                 = Some (Inr (listing None root t))"
      using assms p1 p2 by (rule walk_plain)
    moreover have "set (listing None root t) = entries root t"
    proof
      show "set (listing None root t) \<subseteq> entries root t" by (rule listing_entries)
      show "entries root t \<subseteq> set (listing None root t)" using p1 by (rule entries_listing)
    qed
    ultimately have "map_option fst (walk src root None (None :: 'c consumer option) c0)
                     = Some (Inr (listing None root t))
               \<and> set (listing None root t) = entries root t"
      by simp
    then show "\<exists>xs. map_option fst (walk src root None (None :: 'c consumer option) c0)
                     = Some (Inr xs)
               \<and> set xs = entries root t"
      by (rule exI)
  qed
  show ?thesis using a b by (rule conjI)
qed

theorem walk_lists_entries_witness:
  "holds example_disk ''root'' example_tree \<and> proper example_tree
     \<and> isDirectory (stats_of example_tree)
     \<and> ''root'' \<notin> entries ''root'' example_tree
     \<and> ''root/b'' \<in> entries ''root'' example_tree
     \<and> (\<exists>r. map_option fst (walk example_disk ''root'' None (None :: unit consumer option) ())
               = Some (Inr r) \<and> set r = entries ''root'' example_tree)"
  using walk_lists_entries [OF example_holds, of None None "()"] example_proper example_holds
  by (auto simp add: example_tree_def sep_def)

text \<open>
  The claim as written fails on the tree of the specification's own scenario: with
  \<^verbatim>\<open>z.txt\<close> filtered out, the list is \<^verbatim>\<open>root/a.txt\<close>, \<^verbatim>\<open>root/b\<close>, \<^verbatim>\<open>root/b/c.txt\<close>,
  and \<^verbatim>\<open>root/b\<close> is a directory.
\<close>

theorem walk_lists_directory_counterexample:
  "map_option fst (walk example_disk ''root'' (Some (\<lambda>p st. p \<noteq> ''root/z.txt''))
                     (None :: unit consumer option) ())
     = Some (Inr [''root/a.txt'', ''root/b'', ''root/b/c.txt''])
   \<and> map_sum id isDirectory (lstat example_disk ''root/b'') = Inr True"
  using walk_plain [OF example_holds, of "Some (\<lambda>p st. p \<noteq> ''root/z.txt'')" "()"]
    example_proper example_listing
  by (simp add: example_disk_def dir_stats_def isDirectory_def)

text \<open>
  Claim C2, as the code has it. For every directory tree, whatever the filter and the
  consumer, the walk ends and the list it returns has the form \<open>shaped\<close>: for each
  directory, children in ascending order of their names come before any content of its
  subdirectories, and the subdirectories follow in descending order of their names, each
  as its path and then its content. Without a consumer the list is the listing of the
  root: the children that pass the filter and are no directories, ascending, then the
  subdirectories that pass the filter, descending, each with all that the walk of that
  subdirectory returns.
\<close>

theorem walk_order:
  fixes c0 :: 'c
  assumes "holds src root (Dir st cs)"
  shows "(\<exists>r s. walk src root f c c0 = Some (r, s)
            \<and> (\<forall>xs. r = Inr xs \<longrightarrow> shaped root (Dir st cs) xs))
       \<and> (proper (Dir st cs) \<longrightarrow>
            map_option fst (walk src root f (None :: 'c consumer option) c0)
              = Some (Inr (listing f root (Dir st cs)))
            \<and> (let files = filter (file_child f root) (sort_key fst cs);
                    subdirs = filter (dir_child f root) (sort_key fst cs)
                in listing f root (Dir st cs)
                     = map (\<lambda>(n, t). root @ sep @ n) files
                       @ concat (map (\<lambda>(n, t). (root @ sep @ n) # listing f (root @ sep @ n) t)
                                   (rev subdirs))
                   \<and> sorted (map fst files) \<and> sorted (map fst subdirs)
                   \<and> (\<forall>(n, t) \<in> set subdirs.
                         map_option fst
                           (walk src (root @ sep @ n) f (None :: 'c consumer option) c0)
                           = Some (Inr (listing f (root @ sep @ n) t)))))"
proof -
  have g: "\<exists>r s. walk src root f c c0 = Some (r, s)
            \<and> (\<forall>xs. r = Inr xs \<longrightarrow> shaped root (Dir st cs) xs)"
    using assms by (rule walk_shaped)
  have h: "proper (Dir st cs) \<longrightarrow>
            map_option fst (walk src root f (None :: 'c consumer option) c0)
              = Some (Inr (listing f root (Dir st cs)))
            \<and> (let files = filter (file_child f root) (sort_key fst cs);
                    subdirs = filter (dir_child f root) (sort_key fst cs)
                in listing f root (Dir st cs)
                     = map (\<lambda>(n, t). root @ sep @ n) files
                       @ concat (map (\<lambda>(n, t). (root @ sep @ n) # listing f (root @ sep @ n) t)
                                   (rev subdirs))
                   \<and> sorted (map fst files) \<and> sorted (map fst subdirs)
                   \<and> (\<forall>(n, t) \<in> set subdirs.
                         map_option fst
                           (walk src (root @ sep @ n) f (None :: 'c consumer option) c0)
                           = Some (Inr (listing f (root @ sep @ n) t))))"
  proof
    assume pr: "proper (Dir st cs)"
    have d: "isDirectory (stats_of (Dir st cs))" using pr by simp
    have a: "map_option fst (walk src root f (None :: 'c consumer option) c0)
             = Some (Inr (listing f root (Dir st cs)))"
      using assms pr d by (rule walk_plain)
    have b: "\<And>n t. (n, t) \<in> set (filter (dir_child f root) (sort_key fst cs)) \<Longrightarrow>
               map_option fst (walk src (root @ sep @ n) f (None :: 'c consumer option) c0)
                        = Some (Inr (listing f (root @ sep @ n) t))"
    proof -
      fix n t assume "(n, t) \<in> set (filter (dir_child f root) (sort_key fst cs))"
      then have m: "(n, t) \<in> set cs" and dc: "dir_child f root (n, t)" by auto
      have "holds src (root @ sep @ n) t" "proper t" using assms pr m by auto
      moreover have "isDirectory (stats_of t)" using dc by (simp add: dir_child_def)
      ultimately show "map_option fst
                         (walk src (root @ sep @ n) f (None :: 'c consumer option) c0)
                        = Some (Inr (listing f (root @ sep @ n) t))"
        by (rule walk_plain)
    qed
    show "map_option fst (walk src root f (None :: 'c consumer option) c0)
              = Some (Inr (listing f root (Dir st cs)))
            \<and> (let files = filter (file_child f root) (sort_key fst cs);
                    subdirs = filter (dir_child f root) (sort_key fst cs)
                in listing f root (Dir st cs)
                     = map (\<lambda>(n, t). root @ sep @ n) files
                       @ concat (map (\<lambda>(n, t). (root @ sep @ n) # listing f (root @ sep @ n) t)
                                   (rev subdirs))
                   \<and> sorted (map fst files) \<and> sorted (map fst subdirs)
                   \<and> (\<forall>(n, t) \<in> set subdirs.
                         map_option fst
                           (walk src (root @ sep @ n) f (None :: 'c consumer option) c0)
                           = Some (Inr (listing f (root @ sep @ n) t))))"
      using a b sorted_filter_fst [of "file_child f root" cs]
        sorted_filter_fst [of "dir_child f root" cs]
      by (auto simp add: Let_def)
  qed
  show ?thesis using g h by (rule conjI)
qed

theorem walk_order_witness:
  "holds two_dirs_disk ''root'' (Dir dir_stats two_dirs_children)
     \<and> proper (Dir dir_stats two_dirs_children)
     \<and> map_option fst (walk two_dirs_disk ''root'' None (None :: unit consumer option) ())
         = Some (Inr [''root/b'', ''root/b/y'', ''root/a'', ''root/a/x''])"
  using walk_order [OF two_dirs_holds, of None None "()"]
    two_dirs_holds two_dirs_proper two_dirs_listing
  by simp

text \<open>
  The claim as written fails where a directory has two subdirectories: \<^verbatim>\<open>root/b\<close> is
  visited before \<^verbatim>\<open>root/a\<close>.
\<close>

theorem walk_ascending_counterexample:
  "map_option fst (walk two_dirs_disk ''root'' None (None :: unit consumer option) ())
     = Some (Inr [''root/b'', ''root/b/y'', ''root/a'', ''root/a/x''])"
  using walk_plain [OF two_dirs_holds two_dirs_proper, of None "()"] two_dirs_listing
  by (simp add: two_dirs_proper [simplified])

subsection \<open>copyDir\<close>


















end
